theory Spec2Isabelle
  imports Main "HOL-Library.Sublist"
begin

section \<open>Python values, errors and generators\<close>

text \<open>
  The module works on nested Python lists whose payload is strings. A Python string is
  itself iterable (its items are its one-character strings), which the traversal and the
  join both observe, so strings are not atoms of the model. \<open>Opaque\<close> stands for any
  payload object that is not iterable (a paragraph object, a number, \<open>None\<close>).
\<close>

datatype pyval = Str string | Lst "pyval list" | Opaque nat

datatype pyerror = ValueError string | TypeError | IndexError | RecursionError

text \<open>
  A generator is modelled by what consuming it observes: the items it yields, in order,
  and the exception that ends it, if one does.
\<close>

type_synonym 'a gen = "'a list \<times> pyerror option"

type_synonym address = "nat list"

text \<open>\<open>iter(v)\<close>: the items of an iterable, \<open>TypeError\<close> for a value that is not one.\<close>

fun py_iter :: "pyval \<Rightarrow> pyerror + pyval list" where
  "py_iter (Lst xs) = Inr xs"
| "py_iter (Str s) = Inr (map (\<lambda>c. Str [c]) s)"
| "py_iter (Opaque n) = Inl TypeError"

section \<open>enum_at_depth and iter_at_depth\<close>

definition depth_msg :: string where
  "depth_msg = ''depth argument must be 1, 2, 3, 4, or 5''"

text \<open>
  The loop shared by the branches for depth 2 to 5:
  \<^verbatim>\<open>
  for i, x in enumerate(nested):
      for j, y in enum_at_depth(x, depth_minus_one):
          yield ((i, *j), y)
  \<close>
  over the already enumerated items of \<open>nested\<close>; an exception of an inner generator
  ends the outer one after the items yielded so far.
\<close>

fun yield_nested :: "(pyval \<Rightarrow> (address \<times> pyval) gen) \<Rightarrow> (nat \<times> pyval) list
    \<Rightarrow> (address \<times> pyval) gen" where
  "yield_nested sub [] = ([], None)"
| "yield_nested sub ((i, x) # rest) =
     (case sub x of
        (ys, Some e) \<Rightarrow> (map (\<lambda>(j, y). (i # j, y)) ys, Some e)
      | (ys, None) \<Rightarrow>
          (case yield_nested sub rest of
             (zs, r) \<Rightarrow> (map (\<lambda>(j, y). (i # j, y)) ys @ zs, r)))"

function enum_at_depth :: "pyval \<Rightarrow> int \<Rightarrow> (address \<times> pyval) gen" where
  "enum_at_depth nested depth =
     (if depth = 1 then
        (case py_iter nested of
           Inl e \<Rightarrow> ([], Some e)
         | Inr xs \<Rightarrow> (map (\<lambda>(i, x). ([i], x)) (enumerate 0 xs), None))
      else if depth = 2 then
        (case py_iter nested of
           Inl e \<Rightarrow> ([], Some e)
         | Inr xs \<Rightarrow> yield_nested (\<lambda>x. enum_at_depth x (depth - 1)) (enumerate 0 xs))
      else if depth = 3 then
        (case py_iter nested of
           Inl e \<Rightarrow> ([], Some e)
         | Inr xs \<Rightarrow> yield_nested (\<lambda>x. enum_at_depth x (depth - 1)) (enumerate 0 xs))
      else if depth = 4 then
        (case py_iter nested of
           Inl e \<Rightarrow> ([], Some e)
         | Inr xs \<Rightarrow> yield_nested (\<lambda>x. enum_at_depth x (depth - 1)) (enumerate 0 xs))
      else if depth = 5 then
        (case py_iter nested of
           Inl e \<Rightarrow> ([], Some e)
         | Inr xs \<Rightarrow> yield_nested (\<lambda>x. enum_at_depth x (depth - 1)) (enumerate 0 xs))
      else ([], Some (ValueError depth_msg)))"
  by pat_completeness auto
termination
  by (relation "measure (\<lambda>(nested, depth). nat depth)") auto

declare enum_at_depth.simps [simp del]

text \<open>
  \<open>iter_at_depth\<close> is an ordinary function: for a supported depth it returns the generator
  expression \<open>(x for _, x in enum_at_depth(nested, depth))\<close>, otherwise the call itself
  raises.
\<close>

definition iter_at_depth :: "pyval \<Rightarrow> int \<Rightarrow> pyerror + pyval gen" where
  "iter_at_depth nested depth =
     (if depth = 1 then
        Inr (map snd (fst (enum_at_depth nested depth)), snd (enum_at_depth nested depth))
      else if depth = 2 then
        Inr (map snd (fst (enum_at_depth nested depth)), snd (enum_at_depth nested depth))
      else if depth = 3 then
        Inr (map snd (fst (enum_at_depth nested depth)), snd (enum_at_depth nested depth))
      else if depth = 4 then
        Inr (map snd (fst (enum_at_depth nested depth)), snd (enum_at_depth nested depth))
      else if depth = 5 then
        Inr (map snd (fst (enum_at_depth nested depth)), snd (enum_at_depth nested depth))
      else Inl (ValueError depth_msg))"

section \<open>Domain-depth aliases\<close>

definition iter_tables :: "pyval \<Rightarrow> pyerror + pyval gen" where
  "iter_tables tables = iter_at_depth tables 1"

definition iter_rows :: "pyval \<Rightarrow> pyerror + pyval gen" where
  "iter_rows tables = iter_at_depth tables 2"

definition iter_cells :: "pyval \<Rightarrow> pyerror + pyval gen" where
  "iter_cells tables = iter_at_depth tables 3"

definition iter_paragraphs :: "pyval \<Rightarrow> pyerror + pyval gen" where
  "iter_paragraphs tables = iter_at_depth tables 4"

definition enum_tables :: "pyval \<Rightarrow> (address \<times> pyval) gen" where
  "enum_tables tables = enum_at_depth tables 1"

definition enum_rows :: "pyval \<Rightarrow> (address \<times> pyval) gen" where
  "enum_rows tables = enum_at_depth tables 2"

definition enum_cells :: "pyval \<Rightarrow> (address \<times> pyval) gen" where
  "enum_cells tables = enum_at_depth tables 3"

definition enum_paragraphs :: "pyval \<Rightarrow> (address \<times> pyval) gen" where
  "enum_paragraphs tables = enum_at_depth tables 4"

section \<open>join_leaves\<close>

text \<open>\<open>joint.join(strs)\<close> on a list of strings.\<close>

fun join_strs :: "string \<Rightarrow> string list \<Rightarrow> string" where
  "join_strs joint [] = []"
| "join_strs joint [s] = s"
| "join_strs joint (s # t # ss) = s @ joint @ join_strs joint (t # ss)"

text \<open>The strings of a list of values, \<open>None\<close> when an item is not a string.\<close>

fun as_strs :: "pyval list \<Rightarrow> string list option" where
  "as_strs [] = Some []"
| "as_strs (Str s # vs) = (case as_strs vs of None \<Rightarrow> None | Some ss \<Rightarrow> Some (s # ss))"
| "as_strs (v # vs) = None"

text \<open>
  \<open>joint.join(v)\<close> on any value: \<open>str.join\<close> iterates its argument and raises
  \<open>TypeError\<close> when the argument is not iterable or one of its items is not a string.
\<close>

definition py_join :: "string \<Rightarrow> pyval \<Rightarrow> pyerror + string" where
  "py_join joint v =
     (case py_iter v of
        Inl e \<Rightarrow> Inl e
      | Inr xs \<Rightarrow> (case as_strs xs of None \<Rightarrow> Inl TypeError | Some ss \<Rightarrow> Inr (join_strs joint ss)))"

text \<open>
  A list comprehension evaluates its items in order; the first exception ends it.
\<close>

fun collect :: "(pyerror + 'a) list \<Rightarrow> pyerror + 'a list" where
  "collect [] = Inr []"
| "collect (Inl e # rs) = Inl e"
| "collect (Inr v # rs) = (case collect rs of Inl e \<Rightarrow> Inl e | Inr vs \<Rightarrow> Inr (v # vs))"

text \<open>
  \<^verbatim>\<open>
  if _depth == to_depth:
      return joint.join(cast(List[str], str_tree))
  return [join_leaves(joint, cast(CollTL, b), to_depth, _depth + 1) for b in str_tree]
  \<close>
  Nothing in the source bounds the recursion: with \<open>_depth > to_depth\<close> it descends as
  long as the items are iterable, and the item of a one-character string is that string
  again. Python ends such a descent with \<open>RecursionError\<close> when the interpreter's
  recursion limit is reached; the first argument is the number of frames still available.
\<close>

fun join_leaves :: "nat \<Rightarrow> string \<Rightarrow> pyval \<Rightarrow> int \<Rightarrow> int \<Rightarrow> pyerror + pyval" where
  "join_leaves 0 joint str_tree to_depth depth = Inl RecursionError"
| "join_leaves (Suc limit) joint str_tree to_depth depth =
     (if depth = to_depth then
        (case py_join joint str_tree of Inl e \<Rightarrow> Inl e | Inr s \<Rightarrow> Inr (Str s))
      else
        (case py_iter str_tree of
           Inl e \<Rightarrow> Inl e
         | Inr bs \<Rightarrow>
             (case collect (map (\<lambda>b. join_leaves limit joint b to_depth (depth + 1)) bs) of
                Inl e \<Rightarrow> Inl e
              | Inr rs \<Rightarrow> Inr (Lst rs))))"

section \<open>get_html_map\<close>

text \<open>\<open>v[i]\<close> and \<open>v[i] = w\<close> for an index that \<open>enumerate\<close> produced (never negative).\<close>

fun py_getitem :: "pyval \<Rightarrow> nat \<Rightarrow> pyerror + pyval" where
  "py_getitem (Lst xs) i = (if i < length xs then Inr (xs ! i) else Inl IndexError)"
| "py_getitem (Str s) i = (if i < length s then Inr (Str [s ! i]) else Inl IndexError)"
| "py_getitem (Opaque n) i = Inl TypeError"

fun py_setitem :: "pyval \<Rightarrow> nat \<Rightarrow> pyval \<Rightarrow> pyerror + pyval" where
  "py_setitem (Lst xs) i w = (if i < length xs then Inr (Lst (xs[i := w])) else Inl IndexError)"
| "py_setitem (Str s) i w = Inl TypeError"
| "py_setitem (Opaque n) i w = Inl TypeError"

text \<open>
  The assignment \<open>t[i][j]...[m] = w\<close>, as the new value of \<open>t\<close>: the list reached by
  the leading subscripts is changed in place, so every list on the way holds the changed
  item afterwards. The trees here are values, which is the behaviour of a tree none of whose
  lists occurs in it twice.
\<close>

fun assign_at :: "pyval \<Rightarrow> address \<Rightarrow> pyval \<Rightarrow> pyerror + pyval" where
  "assign_at t [] w = Inr t"
| "assign_at t [i] w = py_setitem t i w"
| "assign_at t (i # j # rest) w =
     (case py_getitem t i of
        Inl e \<Rightarrow> Inl e
      | Inr c \<Rightarrow>
          (case assign_at c (j # rest) w of
             Inl e \<Rightarrow> Inl e
           | Inr c' \<Rightarrow> py_setitem t i c'))"

text \<open>
  A \<open>for\<close> loop over a generator, threading the loop's state: the body runs on each item
  in turn, an exception of the body or of the generator ends the loop.
\<close>

fun for_each :: "('s \<Rightarrow> 'a \<Rightarrow> pyerror + 's) \<Rightarrow> 'a gen \<Rightarrow> 's \<Rightarrow> pyerror + 's" where
  "for_each body ([], None) s = Inr s"
| "for_each body ([], Some e) s = Inl e"
| "for_each body (x # xs, r) s =
     (case body s x of Inl e \<Rightarrow> Inl e | Inr s' \<Rightarrow> for_each body (xs, r) s')"

text \<open>\<open>str(n)\<close> for an index and \<open>str(t)\<close> for a tuple of indices.\<close>

definition digit_char :: "nat \<Rightarrow> char" where
  "digit_char n = ''0123456789'' ! n"

fun str_nat :: "nat \<Rightarrow> string" where
  "str_nat n = (if n < 10 then [digit_char n] else str_nat (n div 10) @ [digit_char (n mod 10)])"

declare str_nat.simps [simp del]

fun str_tuple :: "address \<Rightarrow> string" where
  "str_tuple [] = ''()''"
| "str_tuple [i] = ''('' @ str_nat i @ '',)''"
| "str_tuple is = ''('' @ join_strs '', '' (map str_nat is) @ '')''"

text \<open>
  \<open>str(x)\<close> and \<open>f"{x}"\<close>: a string is itself; for any other value Python prints its
  \<open>repr\<close>, a builtin that is a parameter here.
\<close>

fun py_str :: "(pyval \<Rightarrow> string) \<Rightarrow> pyval \<Rightarrow> string" where
  "py_str repr (Str s) = s"
| "py_str repr v = repr v"

text \<open>
  The four loops of \<open>get_html_map\<close>. \<open>copy.deepcopy(tables)\<close> is a tree equal to
  \<open>tables\<close>; each loop assigns into that working tree at the addresses a generator yields.
  The generators of the last three loops enumerate the working tree itself; an assignment
  replaces the item the generator has just yielded, which it does not read again, so their
  items are those of the tree as the loop finds it.
\<close>

definition prepend_index :: "pyval \<Rightarrow> address \<times> pyval \<Rightarrow> pyerror + pyval" where
  "prepend_index tables_4deep = (\<lambda>(a, paragraph).
     (case py_join '''' paragraph of
        Inl e \<Rightarrow> Inl e
      | Inr par_text \<Rightarrow> assign_at tables_4deep a (Str (join_strs '' '' [str_tuple a, par_text]))))"

definition wrap_items :: "(pyval \<Rightarrow> string) \<Rightarrow> string \<Rightarrow> string \<Rightarrow> pyval \<Rightarrow> pyerror + string" where
  "wrap_items repr opening closing v =
     (case py_iter v of
        Inl e \<Rightarrow> Inl e
      | Inr xs \<Rightarrow> Inr (join_strs '''' (map (\<lambda>x. opening @ py_str repr x @ closing) xs)))"

definition wrap_at :: "(pyval \<Rightarrow> string) \<Rightarrow> string \<Rightarrow> string \<Rightarrow> pyval \<Rightarrow> address \<times> pyval
    \<Rightarrow> pyerror + pyval" where
  "wrap_at repr opening closing work = (\<lambda>(a, v).
     (case wrap_items repr opening closing v of
        Inl e \<Rightarrow> Inl e
      | Inr s \<Rightarrow> assign_at work a (Str s)))"

definition get_html_map :: "(pyval \<Rightarrow> string) \<Rightarrow> pyval \<Rightarrow> pyerror + string" where
  \<open>get_html_map repr tables =
     (case for_each prepend_index (enum_at_depth tables 4) tables of
        Inl e \<Rightarrow> Inl e
      | Inr tables_4deep \<Rightarrow>
     (case for_each (wrap_at repr ''<pre>'' ''</pre>'') (enum_at_depth tables_4deep 3) tables_4deep of
        Inl e \<Rightarrow> Inl e
      | Inr tables_3deep \<Rightarrow>
     (case for_each (wrap_at repr ''<td>'' ''</td>'') (enum_at_depth tables_3deep 2) tables_3deep of
        Inl e \<Rightarrow> Inl e
      | Inr tables_2deep \<Rightarrow>
     (case for_each (wrap_at repr ''<tr>'' ''</tr>'') (enum_at_depth tables_2deep 1) tables_2deep of
        Inl e \<Rightarrow> Inl e
      | Inr tables_1deep \<Rightarrow>
     (case wrap_items repr ''<table border="1">'' ''</table>'' tables_1deep of
        Inl e \<Rightarrow> Inl e
      | Inr tables_ \<Rightarrow> Inr (''<html><body>'' @ tables_ @ ''</body></html>''))))))\<close>

section \<open>The specification's reference enumeration\<close>

text \<open>The items of a sequence, in index order (a string's items are its characters).\<close>

fun seq_items :: "pyval \<Rightarrow> pyval list" where
  "seq_items (Lst xs) = xs"
| "seq_items (Str s) = map (\<lambda>c. Str [c]) s"
| "seq_items (Opaque n) = []"

fun is_sequence :: "pyval \<Rightarrow> bool" where
  "is_sequence (Lst xs) = True"
| "is_sequence (Str s) = True"
| "is_sequence (Opaque n) = False"

text \<open>
  The recursive definition in the specification's words: at depth 1, \<open>((i,), item)\<close> for
  each index and item of the top-level sequence; at a greater depth, for each index \<open>i\<close>
  and subtree \<open>x\<close>, \<open>((i, *sub_address), item)\<close> for every \<open>(sub_address, item)\<close> of
  the enumeration of \<open>x\<close> one level less deep.
\<close>

fun enum_spec :: "nat \<Rightarrow> pyval \<Rightarrow> (address \<times> pyval) list" where
  "enum_spec 0 t = []"
| "enum_spec (Suc 0) t = map (\<lambda>(i, item). ([i], item)) (enumerate 0 (seq_items t))"
| "enum_spec (Suc (Suc n)) t =
     concat (map (\<lambda>(i, x). map (\<lambda>(sub_address, item). (i # sub_address, item)) (enum_spec (Suc n) x))
               (enumerate 0 (seq_items t)))"

text \<open>A tree every node of which above depth \<open>n\<close> is a sequence.\<close>

fun nested_to :: "nat \<Rightarrow> pyval \<Rightarrow> bool" where
  "nested_to 0 t = True"
| "nested_to (Suc n) t = (is_sequence t \<and> list_all (nested_to n) (seq_items t))"

text \<open>The strict lexicographic order of addresses.\<close>

fun lex_less :: "address \<Rightarrow> address \<Rightarrow> bool" where
  "lex_less [] [] = False"
| "lex_less [] (j # b) = True"
| "lex_less (i # a) [] = False"
| "lex_less (i # a) (j # b) = (i < j \<or> (i = j \<and> lex_less a b))"

section \<open>The specification's reference collapse\<close>

fun str_of :: "pyval \<Rightarrow> string" where
  "str_of (Str s) = s"
| "str_of v = []"

fun is_str :: "pyval \<Rightarrow> bool" where
  "is_str (Str s) = True"
| "is_str v = False"

text \<open>A tree whose nodes at depth \<open>n\<close> are lists of strings, below lists only.\<close>

fun leaves_at :: "nat \<Rightarrow> pyval \<Rightarrow> bool" where
  "leaves_at 0 (Lst xs) = list_all is_str xs"
| "leaves_at (Suc n) (Lst xs) = list_all (leaves_at n) xs"
| "leaves_at n v = False"

text \<open>
  The collapse in the specification's words: at the target depth a node is replaced by its
  leaf strings joined with the separator; above it each child is replaced by its collapse,
  in order.
\<close>

fun collapse :: "nat \<Rightarrow> string \<Rightarrow> pyval \<Rightarrow> pyval" where
  "collapse 0 separator t = Str (join_strs separator (map str_of (seq_items t)))"
| "collapse (Suc n) separator t = Lst (map (collapse n separator) (seq_items t))"

section \<open>The fixtures of the docstrings\<close>

definition sequence_fixture :: pyval where
  "sequence_fixture =
     Lst [Lst [Lst [Lst [Str ''a'', Str ''b''], Lst [Str ''c'']], Lst [Lst [Str ''d'', Str ''e'']]],
          Lst [Lst [Lst [Str ''f''], Lst [Str ''g'', Str ''h'']]]]"

definition runs_fixture :: pyval where
  "runs_fixture =
     Lst [Lst [Lst [Lst [Lst [Str ''run1'', Str ''run2''], Lst [Str ''run3'', Str ''run4'']]]]]"

section \<open>The HTML map in the specification's words\<close>

text \<open>A map that also passes each item's index, as \<open>enumerate\<close> gives it.\<close>

definition imap :: "(nat \<Rightarrow> 'a \<Rightarrow> 'b) \<Rightarrow> 'a list \<Rightarrow> 'b list" where
  "imap f xs = map (\<lambda>(i, x). f i x) (enumerate 0 xs)"

text \<open>
  The input type \<open>TextTable = List[List[List[List[List[str]]]]]\<close>: tables of rows of cells
  of paragraphs of run-strings, and the Python value it denotes.
\<close>

definition text_table :: "string list list list list list \<Rightarrow> pyval" where
  "text_table tables =
     Lst (map (\<lambda>table. Lst (map (\<lambda>row. Lst (map (\<lambda>cell.
       Lst (map (\<lambda>paragraph. Lst (map Str paragraph)) cell)) row)) table)) tables)"

text \<open>
  Step 1: the address in its canonical form, a space, the run-strings concatenated.
  Steps 2 to 6: one \<open><pre>\<close> per paragraph, one \<open><td>\<close> per cell, one \<open><tr>\<close> per
  row, one \<open><table border="1">\<close> per table, the whole in \<open><html><body>\<close>.
\<close>

definition paragraph_text :: "address \<Rightarrow> string list \<Rightarrow> string" where
  "paragraph_text a runs = str_tuple a @ '' '' @ concat runs"

definition html_paragraph :: "address \<Rightarrow> string list \<Rightarrow> string" where
  "html_paragraph a runs = ''<pre>'' @ paragraph_text a runs @ ''</pre>''"

definition html_cell :: "nat \<Rightarrow> nat \<Rightarrow> nat \<Rightarrow> string list list \<Rightarrow> string" where
  "html_cell i j k cell =
     ''<td>'' @ concat (imap (\<lambda>m runs. html_paragraph [i, j, k, m] runs) cell) @ ''</td>''"

definition html_row :: "nat \<Rightarrow> nat \<Rightarrow> string list list list \<Rightarrow> string" where
  "html_row i j row = ''<tr>'' @ concat (imap (\<lambda>k cell. html_cell i j k cell) row) @ ''</tr>''"

definition html_table :: "nat \<Rightarrow> string list list list list \<Rightarrow> string" where
  \<open>html_table i table =
     ''<table border="1">'' @ concat (imap (\<lambda>j row. html_row i j row) table) @ ''</table>''\<close>

definition html_doc :: "string list list list list list \<Rightarrow> string" where
  "html_doc tables = ''<html><body>'' @ concat (imap html_table tables) @ ''</body></html>''"








section \<open>Notions for the proofs about the loops\<close>

text \<open>A tree all of whose nodes above depth \<open>n\<close> are lists.\<close>

fun lists_to :: "nat \<Rightarrow> pyval \<Rightarrow> bool" where
  "lists_to 0 t = True"
| "lists_to (Suc n) (Lst xs) = list_all (lists_to n) xs"
| "lists_to (Suc n) t = False"

text \<open>The tree with every node at depth \<open>n\<close> replaced by a function of its address and itself.\<close>

fun amap :: "nat \<Rightarrow> (address \<Rightarrow> pyval \<Rightarrow> pyval) \<Rightarrow> pyval \<Rightarrow> pyval" where
  "amap 0 f t = f [] t"
| "amap (Suc n) f t = Lst (imap (\<lambda>i. amap n (\<lambda>a. f (i # a))) (seq_items t))"

text \<open>The shape shared by the bodies of the four loops: compute a value, assign it at the address.\<close>

definition assign_body :: "(address \<Rightarrow> pyval \<Rightarrow> pyerror + pyval) \<Rightarrow> pyval \<Rightarrow> address \<times> pyval
    \<Rightarrow> pyerror + pyval" where
  "assign_body g s = (\<lambda>(a, x). case g a x of Inl e \<Rightarrow> Inl e | Inr v \<Rightarrow> assign_at s a v)"

definition par_text :: "pyval \<Rightarrow> string" where
  "par_text x = (case py_join '''' x of Inl e \<Rightarrow> [] | Inr s \<Rightarrow> s)"

definition indexed_par :: "address \<Rightarrow> pyval \<Rightarrow> pyval" where
  "indexed_par a x = Str (join_strs '' '' [str_tuple a, par_text x])"

definition wrapped :: "(pyval \<Rightarrow> string) \<Rightarrow> string \<Rightarrow> string \<Rightarrow> address \<Rightarrow> pyval \<Rightarrow> pyval" where
  "wrapped repr opening closing a v =
     Str (join_strs '''' (map (\<lambda>x. opening @ py_str repr x @ closing) (seq_items v)))"



section \<open>The module over an explicit store\<close>

text \<open>
  Python lists are objects: a list holds references, and an assignment \<open>t[i] = w\<close> changes
  the list object that every holder of a reference to it sees. To state what a call leaves
  unchanged, the store of list objects is explicit here: a value is a string or the address
  of a list, the store is the table of lists, and a new list gets the next free address.
\<close>

datatype sval = SStr string | SRef nat

type_synonym store = "sval list list"

text \<open>
  A run over the store returns, raises, or is not finished within the number of steps it
  is given: the loops read the lengths of lists from the store at every step, so their
  end is a property of the run, not of the loop.
\<close>

datatype 'a outcome = Returned 'a | Raised pyerror | Unfinished

text \<open>
  Item \<open>n\<close> of a list or string as an iterator reads it: from the store as it is at that
  moment, \<open>None\<close> when the index has reached the length.
\<close>

fun s_item :: "store \<Rightarrow> sval \<Rightarrow> nat \<Rightarrow> sval option" where
  "s_item st (SRef a) n = (if a < length st \<and> n < length (st ! a) then Some (st ! a ! n) else None)"
| "s_item st (SStr s) n = (if n < length s then Some (SStr [s ! n]) else None)"

text \<open>All items at once, as \<open>str.join\<close> and a list display read them.\<close>

fun s_items :: "store \<Rightarrow> sval \<Rightarrow> sval list" where
  "s_items st (SRef a) = (if a < length st then st ! a else [])"
| "s_items st (SStr s) = map (\<lambda>c. SStr [c]) s"

text \<open>\<open>v[i]\<close>, \<open>v[i] = w\<close> and \<open>t[i][j]...[m] = w\<close> on the store.\<close>

fun s_getitem :: "store \<Rightarrow> sval \<Rightarrow> nat \<Rightarrow> sval outcome" where
  "s_getitem st v i = (case s_item st v i of None \<Rightarrow> Raised IndexError | Some x \<Rightarrow> Returned x)"

fun s_setitem :: "store \<Rightarrow> sval \<Rightarrow> nat \<Rightarrow> sval \<Rightarrow> store outcome" where
  "s_setitem st (SRef a) i w =
     (if a < length st \<and> i < length (st ! a) then Returned (st[a := (st ! a)[i := w]])
      else Raised IndexError)"
| "s_setitem st (SStr s) i w = Raised TypeError"

fun s_assign :: "store \<Rightarrow> sval \<Rightarrow> address \<Rightarrow> sval \<Rightarrow> store outcome" where
  "s_assign st t [] w = Returned st"
| "s_assign st t [i] w = s_setitem st t i w"
| "s_assign st t (i # j # rest) w =
     (case s_getitem st t i of
        Returned c \<Rightarrow> s_assign st c (j # rest) w
      | Raised e \<Rightarrow> Raised e
      | Unfinished \<Rightarrow> Unfinished)"

text \<open>
  \<^verbatim>\<open>for address, item in enum_at_depth(nested, d + 1): body\<close>, resumed at index \<open>n\<close>
  of \<open>nested\<close>. A generator runs interleaved with the loop body: each item is read from the
  store as the body's earlier assignments have left it. The first argument bounds the
  number of steps (\<open>Unfinished\<close> when it is used up).
\<close>

fun s_for_enum :: "nat \<Rightarrow> nat \<Rightarrow> (store \<Rightarrow> address \<Rightarrow> sval \<Rightarrow> store outcome) \<Rightarrow> address \<Rightarrow> sval
    \<Rightarrow> nat \<Rightarrow> store \<Rightarrow> store outcome" where
  "s_for_enum 0 d body pre nested n st = Unfinished"
| "s_for_enum (Suc fuel) d body pre nested n st =
     (case s_item st nested n of
        None \<Rightarrow> Returned st
      | Some x \<Rightarrow>
          (case (case d of
                   0 \<Rightarrow> body st (pre @ [n]) x
                 | Suc d' \<Rightarrow> s_for_enum fuel d' body (pre @ [n]) x 0 st) of
             Returned st' \<Rightarrow> s_for_enum fuel d body pre nested (Suc n) st'
           | Raised e \<Rightarrow> Raised e
           | Unfinished \<Rightarrow> Unfinished))"

text \<open>
  \<open>copy.deepcopy\<close> of the standard library on strings and lists: a string is returned as
  it is; a list is copied into a new list, registered in the memo before its items are
  copied, so that a list met again is copied once.
\<close>

fun deepcopy :: "nat \<Rightarrow> (nat \<times> nat) list \<Rightarrow> sval \<Rightarrow> store \<Rightarrow> (sval \<times> (nat \<times> nat) list \<times> store) outcome"
and copy_items :: "nat \<Rightarrow> (nat \<times> nat) list \<Rightarrow> nat \<Rightarrow> nat \<Rightarrow> nat \<Rightarrow> store
    \<Rightarrow> (sval \<times> (nat \<times> nat) list \<times> store) outcome" where
  "deepcopy 0 memo x st = Unfinished"
| "deepcopy (Suc fuel) memo (SStr s) st = Returned (SStr s, memo, st)"
| "deepcopy (Suc fuel) memo (SRef a) st =
     (case map_of memo a of
        Some y \<Rightarrow> Returned (SRef y, memo, st)
      | None \<Rightarrow> copy_items fuel ((a, length st) # memo) a (length st) 0 (st @ [[]]))"
| "copy_items 0 memo a y n st = Unfinished"
| "copy_items (Suc fuel) memo a y n st =
     (case s_item st (SRef a) n of
        None \<Rightarrow> Returned (SRef y, memo, st)
      | Some x \<Rightarrow>
          (case deepcopy fuel memo x st of
             Returned (x', memo', st') \<Rightarrow>
               copy_items fuel memo' a y (Suc n) (st'[y := st' ! y @ [x']])
           | Raised e \<Rightarrow> Raised e
           | Unfinished \<Rightarrow> Unfinished))"

text \<open>\<open>str.join\<close>, \<open>str\<close> and the wrapping of items, on the store.\<close>

fun sval_strs :: "sval list \<Rightarrow> string list option" where
  "sval_strs [] = Some []"
| "sval_strs (SStr s # vs) = (case sval_strs vs of None \<Rightarrow> None | Some ss \<Rightarrow> Some (s # ss))"
| "sval_strs (v # vs) = None"

definition s_join :: "store \<Rightarrow> string \<Rightarrow> sval \<Rightarrow> string outcome" where
  "s_join st joint v =
     (case sval_strs (s_items st v) of None \<Rightarrow> Raised TypeError | Some ss \<Rightarrow> Returned (join_strs joint ss))"

fun s_str :: "(store \<Rightarrow> sval \<Rightarrow> string) \<Rightarrow> store \<Rightarrow> sval \<Rightarrow> string" where
  "s_str repr st (SStr s) = s"
| "s_str repr st v = repr st v"

definition s_wrap_items :: "(store \<Rightarrow> sval \<Rightarrow> string) \<Rightarrow> string \<Rightarrow> string \<Rightarrow> store \<Rightarrow> sval \<Rightarrow> string" where
  "s_wrap_items repr opening closing st v =
     join_strs '''' (map (\<lambda>x. opening @ s_str repr st x @ closing) (s_items st v))"

text \<open>The bodies of the four loops and \<open>get_html_map\<close> itself, statement by statement.\<close>

definition s_prepend_index :: "sval \<Rightarrow> store \<Rightarrow> address \<Rightarrow> sval \<Rightarrow> store outcome" where
  "s_prepend_index tables_4deep st a paragraph =
     (case s_join st '''' paragraph of
        Returned text \<Rightarrow> s_assign st tables_4deep a (SStr (join_strs '' '' [str_tuple a, text]))
      | Raised e \<Rightarrow> Raised e
      | Unfinished \<Rightarrow> Unfinished)"

definition s_wrap_at :: "(store \<Rightarrow> sval \<Rightarrow> string) \<Rightarrow> string \<Rightarrow> string \<Rightarrow> sval \<Rightarrow> store \<Rightarrow> address
    \<Rightarrow> sval \<Rightarrow> store outcome" where
  "s_wrap_at repr opening closing work st a v =
     s_assign st work a (SStr (s_wrap_items repr opening closing st v))"

definition get_html_map_store :: "nat \<Rightarrow> (store \<Rightarrow> sval \<Rightarrow> string) \<Rightarrow> sval \<Rightarrow> store
    \<Rightarrow> (string \<times> store) outcome" where
  \<open>get_html_map_store fuel repr tables st =
     (case deepcopy fuel [] tables st of
        Raised e \<Rightarrow> Raised e | Unfinished \<Rightarrow> Unfinished
      | Returned (tables_4deep, memo, st0) \<Rightarrow>
     (case s_for_enum fuel 3 (s_prepend_index tables_4deep) [] tables 0 st0 of
        Raised e \<Rightarrow> Raised e | Unfinished \<Rightarrow> Unfinished
      | Returned st4 \<Rightarrow>
     (case s_for_enum fuel 2 (s_wrap_at repr ''<pre>'' ''</pre>'' tables_4deep) [] tables_4deep 0 st4 of
        Raised e \<Rightarrow> Raised e | Unfinished \<Rightarrow> Unfinished
      | Returned st3 \<Rightarrow>
     (case s_for_enum fuel 1 (s_wrap_at repr ''<td>'' ''</td>'' tables_4deep) [] tables_4deep 0 st3 of
        Raised e \<Rightarrow> Raised e | Unfinished \<Rightarrow> Unfinished
      | Returned st2 \<Rightarrow>
     (case s_for_enum fuel 0 (s_wrap_at repr ''<tr>'' ''</tr>'' tables_4deep) [] tables_4deep 0 st2 of
        Raised e \<Rightarrow> Raised e | Unfinished \<Rightarrow> Unfinished
      | Returned st1 \<Rightarrow>
          Returned (''<html><body>''
                    @ s_wrap_items repr ''<table border="1">'' ''</table>'' st1 tables_4deep
                    @ ''</body></html>'', st1))))))\<close>

text \<open>\<open>join_leaves\<close> on the store: the list display allocates a new list for its results.\<close>

fun s_join_leaves :: "nat \<Rightarrow> string \<Rightarrow> sval \<Rightarrow> int \<Rightarrow> int \<Rightarrow> store \<Rightarrow> (sval \<times> store) outcome"
and s_join_each :: "nat \<Rightarrow> string \<Rightarrow> sval list \<Rightarrow> int \<Rightarrow> int \<Rightarrow> store \<Rightarrow> (sval list \<times> store) outcome" where
  "s_join_leaves 0 joint str_tree to_depth depth st = Raised RecursionError"
| "s_join_leaves (Suc limit) joint str_tree to_depth depth st =
     (if depth = to_depth then
        (case s_join st joint str_tree of
           Returned s \<Rightarrow> Returned (SStr s, st)
         | Raised e \<Rightarrow> Raised e
         | Unfinished \<Rightarrow> Unfinished)
      else
        (case s_join_each limit joint (s_items st str_tree) to_depth (depth + 1) st of
           Returned (rs, st') \<Rightarrow> Returned (SRef (length st'), st' @ [rs])
         | Raised e \<Rightarrow> Raised e
         | Unfinished \<Rightarrow> Unfinished))"
| "s_join_each limit joint [] to_depth depth st = Returned ([], st)"
| "s_join_each limit joint (b # bs) to_depth depth st =
     (case s_join_leaves limit joint b to_depth depth st of
        Returned (r, st1) \<Rightarrow>
          (case s_join_each limit joint bs to_depth depth st1 of
             Returned (rs, st2) \<Rightarrow> Returned (r # rs, st2)
           | Raised e \<Rightarrow> Raised e
           | Unfinished \<Rightarrow> Unfinished)
      | Raised e \<Rightarrow> Raised e
      | Unfinished \<Rightarrow> Unfinished)"

text \<open>The tree a value denotes in a store, read to a bounded depth.\<close>

fun read_tree :: "nat \<Rightarrow> store \<Rightarrow> sval \<Rightarrow> pyval option" where
  "read_tree 0 st v = None"
| "read_tree (Suc k) st (SStr s) = Some (Str s)"
| "read_tree (Suc k) st (SRef a) =
     (if a < length st then map_option Lst (those (map (read_tree k st) (st ! a))) else None)"

text \<open>A store holding the tree \<open>[[[[["run1","run2"],["run3"]],[]]]]\<close> at address 0, and the store after \<open>get_html_map\<close> has run on it.\<close>

definition store_fixture :: store where
  "store_fixture =
     [[SRef 1], [SRef 2], [SRef 3, SRef 6], [SRef 4, SRef 5], [SStr ''run1'', SStr ''run2''],
      [SStr ''run3''], []]"

definition store_after :: store where
  "store_after =
     [[SRef 1], [SRef 2], [SRef 3, SRef 6], [SRef 4, SRef 5],
      [SStr ''run1'', SStr ''run2''], [SStr ''run3''], [],
      [SStr ''<tr><td><pre>(0, 0, 0, 0) run1run2</pre><pre>(0, 0, 0, 1) run3</pre></td><td></td></tr>''],
      [SStr ''<td><pre>(0, 0, 0, 0) run1run2</pre><pre>(0, 0, 0, 1) run3</pre></td><td></td>''],
      [SStr ''<pre>(0, 0, 0, 0) run1run2</pre><pre>(0, 0, 0, 1) run3</pre>'', SStr []],
      [SStr ''(0, 0, 0, 0) run1run2'', SStr ''(0, 0, 0, 1) run3''],
      [SStr ''run1'', SStr ''run2''], [SStr ''run3''], []]"

text \<open>A loop body that does nothing, and a stand-in for \<open>repr\<close> on the store.\<close>

definition s_pass :: "store \<Rightarrow> address \<Rightarrow> sval \<Rightarrow> store outcome" where
  "s_pass st a x = Returned st"

definition s_plain_repr :: "store \<Rightarrow> sval \<Rightarrow> string" where
  "s_plain_repr st v = ''<object>''"

text \<open>Values and stores that refer to lists allocated from address \<open>n0\<close> on only.\<close>

fun fresh :: "nat \<Rightarrow> sval \<Rightarrow> bool" where
  "fresh n0 (SStr s) = True"
| "fresh n0 (SRef c) = (n0 \<le> c)"

definition closed_from :: "nat \<Rightarrow> store \<Rightarrow> bool" where
  "closed_from n0 st = (n0 \<le> length st \<and> list_all (list_all (fresh n0)) (drop n0 st))"

definition memo_fresh :: "nat \<Rightarrow> (nat \<times> nat) list \<Rightarrow> bool" where
  "memo_fresh n0 memo = list_all (\<lambda>(a, y). n0 \<le> y) memo"

section \<open>Unfolding the traversal\<close>

lemma enum_at_depth_1:
  "enum_at_depth nested 1 =
     (case py_iter nested of
        Inl e \<Rightarrow> ([], Some e)
      | Inr xs \<Rightarrow> (map (\<lambda>(i, x). ([i], x)) (enumerate 0 xs), None))"
  by (subst enum_at_depth.simps) simp

lemma enum_at_depth_step:
  assumes "2 \<le> depth" "depth \<le> 5"
  shows "enum_at_depth nested depth =
     (case py_iter nested of
        Inl e \<Rightarrow> ([], Some e)
      | Inr xs \<Rightarrow> yield_nested (\<lambda>x. enum_at_depth x (depth - 1)) (enumerate 0 xs))"
proof -
  from assms have "depth = 2 \<or> depth = 3 \<or> depth = 4 \<or> depth = 5" by arith
  then show ?thesis
    by (subst enum_at_depth.simps) auto
qed

lemma enum_at_depth_invalid:
  assumes "depth < 1 \<or> 5 < depth"
  shows "enum_at_depth nested depth = ([], Some (ValueError depth_msg))"
  using assms by (subst enum_at_depth.simps) auto

lemma iter_at_depth_valid:
  assumes "1 \<le> depth" "depth \<le> 5"
  shows "iter_at_depth nested depth =
     Inr (map snd (fst (enum_at_depth nested depth)), snd (enum_at_depth nested depth))"
proof -
  from assms have "depth = 1 \<or> depth = 2 \<or> depth = 3 \<or> depth = 4 \<or> depth = 5" by arith
  then show ?thesis
    unfolding iter_at_depth_def by auto
qed

lemma iter_at_depth_invalid:
  assumes "depth < 1 \<or> 5 < depth"
  shows "iter_at_depth nested depth = Inl (ValueError depth_msg)"
  using assms unfolding iter_at_depth_def by auto

lemma enum_at_depth_empty:
  assumes "1 \<le> depth" "depth \<le> 5"
  shows "enum_at_depth (Lst []) depth = ([], None)"
proof (cases "depth = 1")
  case True
  then show ?thesis by (simp add: enum_at_depth_1)
next
  case False
  with assms have "2 \<le> depth" by arith
  then show ?thesis using assms(2) by (simp add: enum_at_depth_step)
qed

section \<open>Depth bound\<close>

text \<open>
  Claim C2. For every tree and every depth outside 1..5, consuming
  \<open>enum_at_depth(tree, depth)\<close> yields no item and ends with the \<open>ValueError\<close> whose
  message lists the supported depths 1, 2, 3, 4, 5; \<open>iter_at_depth(tree, depth)\<close> raises
  the same error, with the same message, before any item exists.
\<close>

theorem invalid_depth_raises:
  assumes "depth < 1 \<or> 5 < depth"
  shows "enum_at_depth tree depth = ([], Some (ValueError ''depth argument must be 1, 2, 3, 4, or 5''))
       \<and> iter_at_depth tree depth = Inl (ValueError ''depth argument must be 1, 2, 3, 4, or 5'')"
  using enum_at_depth_invalid [OF assms] iter_at_depth_invalid [OF assms]
  by (simp add: depth_msg_def)

theorem invalid_depth_raises_witness:
  "((0::int) < 1 \<or> 5 < (0::int))
   \<and> enum_at_depth (Lst [Lst [Str ''a'']]) 0
       = ([], Some (ValueError ''depth argument must be 1, 2, 3, 4, or 5''))
   \<and> iter_at_depth (Lst [Lst [Str ''a'']]) 0
       = Inl (ValueError ''depth argument must be 1, 2, 3, 4, or 5'')
   \<and> ((6::int) < 1 \<or> 5 < (6::int))
   \<and> enum_at_depth (Lst [Lst [Str ''a'']]) 6
       = ([], Some (ValueError ''depth argument must be 1, 2, 3, 4, or 5''))
   \<and> iter_at_depth (Lst [Lst [Str ''a'']]) 6
       = Inl (ValueError ''depth argument must be 1, 2, 3, 4, or 5'')"
  using invalid_depth_raises [of 0 "Lst [Lst [Str ''a'']]"]
        invalid_depth_raises [of 6 "Lst [Lst [Str ''a'']]"]
  by simp

section \<open>Iteration is the projection of enumeration\<close>

text \<open>
  Claim C4. For every tree and every supported depth 1..5, \<open>iter_at_depth\<close> returns a
  generator that yields exactly the second components of the items of \<open>enum_at_depth\<close>,
  in the same order and as many, and ends the way \<open>enum_at_depth\<close> ends.
\<close>

theorem iter_is_projection_of_enum:
  assumes "1 \<le> depth" "depth \<le> 5"
  shows "\<exists>items r. iter_at_depth tree depth = Inr (items, r)
       \<and> items = map snd (fst (enum_at_depth tree depth))
       \<and> length items = length (fst (enum_at_depth tree depth))
       \<and> r = snd (enum_at_depth tree depth)"
  using iter_at_depth_valid [OF assms] by simp

theorem iter_is_projection_of_enum_witness:
  "(1::int) \<le> 2 \<and> (2::int) \<le> 5
   \<and> enum_at_depth (Lst [Lst [Str ''a'', Str ''b''], Lst [Str ''c'']]) 2
       = ([([0, 0], Str ''a''), ([0, 1], Str ''b''), ([1, 0], Str ''c'')], None)
   \<and> iter_at_depth (Lst [Lst [Str ''a'', Str ''b''], Lst [Str ''c'']]) 2
       = Inr ([Str ''a'', Str ''b'', Str ''c''], None)"
proof -
  have e: "enum_at_depth (Lst [Lst [Str ''a'', Str ''b''], Lst [Str ''c'']]) 2
       = ([([0, 0], Str ''a''), ([0, 1], Str ''b''), ([1, 0], Str ''c'')], None)"
    by (simp add: enum_at_depth_step enum_at_depth_1)
  show ?thesis
    using iter_is_projection_of_enum [of 2 "Lst [Lst [Str ''a'', Str ''b''], Lst [Str ''c'']]"] e
    by auto
qed

section \<open>Aliases\<close>

text \<open>
  Claim C9. \<open>iter_tables\<close>, \<open>iter_rows\<close>, \<open>iter_cells\<close>, \<open>iter_paragraphs\<close> are
  \<open>iter_at_depth\<close> at depths 1, 2, 3, 4, and \<open>enum_tables\<close>, \<open>enum_rows\<close>,
  \<open>enum_cells\<close>, \<open>enum_paragraphs\<close> are \<open>enum_at_depth\<close> at depths 1, 2, 3, 4, on
  every input.
\<close>

theorem aliases_are_fixed_depths:
  "iter_tables t = iter_at_depth t 1 \<and> iter_rows t = iter_at_depth t 2
   \<and> iter_cells t = iter_at_depth t 3 \<and> iter_paragraphs t = iter_at_depth t 4
   \<and> enum_tables t = enum_at_depth t 1 \<and> enum_rows t = enum_at_depth t 2
   \<and> enum_cells t = enum_at_depth t 3 \<and> enum_paragraphs t = enum_at_depth t 4"
  by (simp add: iter_tables_def iter_rows_def iter_cells_def iter_paragraphs_def
      enum_tables_def enum_rows_def enum_cells_def enum_paragraphs_def)

section \<open>The empty sequence\<close>

text \<open>
  Claim C10. On the empty list, at every supported depth 1..5, \<open>enum_at_depth\<close> and
  \<open>iter_at_depth\<close> yield nothing and raise nothing.
\<close>

theorem empty_sequence_yields_nothing:
  assumes "1 \<le> depth" "depth \<le> 5"
  shows "enum_at_depth (Lst []) depth = ([], None) \<and> iter_at_depth (Lst []) depth = Inr ([], None)"
  using enum_at_depth_empty [OF assms] iter_at_depth_valid [OF assms, of "Lst []"] by simp

theorem empty_sequence_yields_nothing_witness:
  "(1::int) \<le> 5 \<and> (5::int) \<le> 5
   \<and> enum_at_depth (Lst []) 5 = ([], None) \<and> iter_at_depth (Lst []) 5 = Inr ([], None)"
  using empty_sequence_yields_nothing [of 5] by simp


section \<open>Enumeration against its recursive definition\<close>

lemma py_iter_seq: "is_sequence t \<Longrightarrow> py_iter t = Inr (seq_items t)"
  by (cases t) simp_all

lemma yield_nested_total:
  assumes "\<And>x. x \<in> set xs \<Longrightarrow> sub x = (f x, None)"
  shows "yield_nested sub (enumerate n xs)
       = (concat (map (\<lambda>(i, x). map (\<lambda>(a, y). (i # a, y)) (f x)) (enumerate n xs)), None)"
  using assms by (induction xs arbitrary: n) simp_all

lemma enum_at_depth_spec_nat:
  "1 \<le> n \<Longrightarrow> n \<le> 5 \<Longrightarrow> nested_to n t \<Longrightarrow> enum_at_depth t (int n) = (enum_spec n t, None)"
proof (induction n arbitrary: t)
  case 0
  then show ?case by simp
next
  case (Suc n)
  show ?case
  proof (cases n)
    case 0
    with Suc.prems show ?thesis by (simp add: enum_at_depth_1 py_iter_seq)
  next
    case (Suc m)
    have sub: "\<And>x. x \<in> set (seq_items t) \<Longrightarrow> enum_at_depth x (int n) = (enum_spec n x, None)"
      using Suc.IH Suc.prems Suc by (simp add: list_all_iff)
    have step: "enum_at_depth t (int (Suc n))
       = yield_nested (\<lambda>x. enum_at_depth x (int (Suc n) - 1)) (enumerate 0 (seq_items t))"
      using Suc.prems Suc by (simp add: enum_at_depth_step py_iter_seq)
    show ?thesis
      unfolding step using sub Suc by (simp add: yield_nested_total)
  qed
qed

lemma enum_at_depth_spec:
  assumes "1 \<le> depth" "depth \<le> 5" "nested_to (nat depth) t"
  shows "enum_at_depth t depth = (enum_spec (nat depth) t, None)"
  using enum_at_depth_spec_nat [of "nat depth" t] assms by simp

lemma sequence_fixture_enum_3:
  "enum_at_depth sequence_fixture 3 =
     ([([0, 0, 0], Lst [Str ''a'', Str ''b'']), ([0, 0, 1], Lst [Str ''c'']),
       ([0, 1, 0], Lst [Str ''d'', Str ''e'']), ([1, 0, 0], Lst [Str ''f'']),
       ([1, 0, 1], Lst [Str ''g'', Str ''h''])], None)"
  by (simp add: sequence_fixture_def enum_at_depth_step enum_at_depth_1 enumerate_eq_zip upt_rec)

lemma lex_less_same_head: "lex_less (i # a) (i # b) = lex_less a b"
  by simp

lemma yield_nested_heads:
  "(a, y) \<in> set (fst (yield_nested sub (enumerate n xs))) \<Longrightarrow> \<exists>i r. a = i # r \<and> n \<le> i"
proof (induction xs arbitrary: n)
  case Nil
  then show ?case by simp
next
  case (Cons x xs)
  obtain ys r where s: "sub x = (ys, r)" by (cases "sub x")
  obtain zs q where z: "yield_nested sub (enumerate (Suc n) xs) = (zs, q)"
    by (cases "yield_nested sub (enumerate (Suc n) xs)")
  from Cons.prems s z have "(a, y) \<in> set (map (\<lambda>(j, y). (n # j, y)) ys) \<or> (a, y) \<in> set zs"
    by (cases r) auto
  then show ?case
  proof
    assume "(a, y) \<in> set (map (\<lambda>(j, y). (n # j, y)) ys)"
    then show ?thesis by auto
  next
    assume "(a, y) \<in> set zs"
    with Cons.IH [of "Suc n"] z obtain i r where "a = i # r" "Suc n \<le> i" by auto
    then show ?thesis by auto
  qed
qed

lemma sorted_prefixed:
  "sorted_wrt lex_less (map fst ys) \<Longrightarrow> sorted_wrt lex_less (map fst (map (\<lambda>(j, y). (n # j, y)) ys))"
  by (induction ys) auto

lemma yield_nested_sorted:
  assumes "\<And>x. sorted_wrt lex_less (map fst (fst (sub x)))"
  shows "sorted_wrt lex_less (map fst (fst (yield_nested sub (enumerate n xs))))"
proof (induction xs arbitrary: n)
  case Nil
  then show ?case by simp
next
  case (Cons x xs)
  obtain ys r where s: "sub x = (ys, r)" by (cases "sub x")
  obtain zs q where z: "yield_nested sub (enumerate (Suc n) xs) = (zs, q)"
    by (cases "yield_nested sub (enumerate (Suc n) xs)")
  have ys: "sorted_wrt lex_less (map fst (map (\<lambda>(j, y). (n # j, y)) ys))"
    by (rule sorted_prefixed) (use assms [of x] s in simp)
  have zs: "sorted_wrt lex_less (map fst zs)"
    using Cons.IH [of "Suc n"] z by simp
  have cross: "lex_less a b" if "a \<in> set (map fst (map (\<lambda>(j, y). (n # j, y)) ys))" "b \<in> set (map fst zs)" for a b
  proof -
    from that(1) obtain j where a: "a = n # j" by auto
    from that(2) obtain y where "(b, y) \<in> set (fst (yield_nested sub (enumerate (Suc n) xs)))"
      using z by auto
    from yield_nested_heads [OF this] obtain i r where "b = i # r" "Suc n \<le> i" by auto
    with a show ?thesis by simp
  qed
  show ?case
  proof (cases r)
    case None
    with s z ys zs cross show ?thesis by (simp add: sorted_wrt_append)
  next
    case (Some e)
    with s ys show ?thesis by simp
  qed
qed

lemma enumerate_singletons_sorted:
  "sorted_wrt lex_less (map fst (map (\<lambda>(i, x). ([i], x)) (enumerate n xs)))"
proof (induction xs arbitrary: n)
  case Nil
  then show ?case by simp
next
  case (Cons x xs)
  have "lex_less [n] b" if "b \<in> set (map fst (map (\<lambda>(i, x). ([i], x)) (enumerate (Suc n) xs)))" for b
  proof -
    from that obtain i y where "(i, y) \<in> set (enumerate (Suc n) xs)" "b = [i]" by auto
    then show ?thesis by (auto simp: in_set_enumerate_eq)
  qed
  with Cons.IH [of "Suc n"] show ?case by simp
qed

lemma enum_at_depth_sorted_nat:
  "sorted_wrt lex_less (map fst (fst (enum_at_depth t (int n))))"
proof (induction n arbitrary: t)
  case 0
  then show ?case by (simp add: enum_at_depth_invalid)
next
  case (Suc n)
  consider "n = 0" | "1 \<le> n" "n \<le> 4" | "5 \<le> n" by arith
  then show ?case
  proof cases
    case 1
    show ?thesis
    proof (cases "py_iter t")
      case (Inl e)
      with 1 show ?thesis by (simp add: enum_at_depth_1)
    next
      case (Inr xs)
      with 1 have "fst (enum_at_depth t (int (Suc n))) = map (\<lambda>(i, x). ([i], x)) (enumerate 0 xs)"
        by (simp add: enum_at_depth_1)
      then show ?thesis by (simp only: enumerate_singletons_sorted)
    qed
  next
    case 2
    have d: "int (Suc n) - 1 = int n" by simp
    from 2 have "2 \<le> int (Suc n)" "int (Suc n) \<le> 5" by simp_all
    from enum_at_depth_step [OF this, of t]
    have "enum_at_depth t (int (Suc n)) =
      (case py_iter t of Inl e \<Rightarrow> ([], Some e)
       | Inr xs \<Rightarrow> yield_nested (\<lambda>x. enum_at_depth x (int n)) (enumerate 0 xs))"
      unfolding d .
    then show ?thesis
      using yield_nested_sorted [of "\<lambda>x. enum_at_depth x (int n)", OF Suc.IH]
      by (simp split: sum.split)
  next
    case 3
    then show ?thesis by (simp add: enum_at_depth_invalid)
  qed
qed

lemma enum_at_depth_sorted:
  "sorted_wrt lex_less (map fst (fst (enum_at_depth t depth)))"
proof (cases "0 \<le> depth")
  case True
  then show ?thesis using enum_at_depth_sorted_nat [of t "nat depth"] by simp
next
  case False
  then show ?thesis by (simp add: enum_at_depth_invalid)
qed

section \<open>Joining leaves\<close>

lemma as_strs_map_Str [simp]: "as_strs (map Str ss) = Some ss"
  by (induction ss) simp_all

lemma py_join_strs [simp]: "py_join joint (Lst (map Str ss)) = Inr (join_strs joint ss)"
  by (simp add: py_join_def)

lemma join_leaves_at_depth:
  "join_leaves (Suc limit) joint (Lst (map Str ss)) d d = Inr (Str (join_strs joint ss))"
  by simp

lemma collect_all_Inr [simp]: "collect (map (\<lambda>x. Inr (f x)) xs) = Inr (map f xs)"
  by (induction xs) simp_all

lemma join_leaves_above_depth:
  "join_leaves (Suc (Suc limit)) joint (Lst (map (\<lambda>ss. Lst (map Str ss)) sss)) d (d - 1)
     = Inr (Lst (map (\<lambda>ss. Str (join_strs joint ss)) sss))"
  by (simp add: comp_def)

lemma join_strs_Cons: "ss \<noteq> [] \<Longrightarrow> join_strs joint (s # ss) = s @ joint @ join_strs joint ss"
  by (cases ss) simp_all

lemma join_strs_snoc: "ss \<noteq> [] \<Longrightarrow> join_strs joint (ss @ [s]) = join_strs joint ss @ joint @ s"
  by (induction joint ss rule: join_strs.induct) simp_all

lemma join_strs_empty_joint [simp]: "join_strs [] ss = concat ss"
  by (induction "[]::string" ss rule: join_strs.induct) simp_all

lemma runs_to_depth_3:
  "join_leaves (Suc (Suc (Suc (Suc limit)))) '''' runs_fixture 3 0 = Inl TypeError"
  by (simp add: runs_fixture_def py_join_def)

lemma runs_to_depth_4:
  "join_leaves (Suc (Suc (Suc (Suc (Suc limit))))) '''' runs_fixture 4 0
     = Inr (Lst [Lst [Lst [Lst [Str ''run1run2'', Str ''run3run4'']]]])"
  by (simp add: runs_fixture_def py_join_def)

section \<open>Claims on enumeration and joining\<close>

text \<open>
  Claim C3. On a tree nested at least as deep as the requested depth, at every supported
  depth 1..5, \<open>enum_at_depth\<close> yields exactly the items of the recursive reference
  definition and ends normally; on the docstring's fixture at depth 3 it yields the five
  listed pairs in the listed order; and on every input the addresses it yields are in
  strict lexicographic order.
\<close>

theorem enum_at_depth_refines_spec:
  "(1 \<le> depth \<and> depth \<le> 5 \<and> nested_to (nat depth) t
      \<longrightarrow> enum_at_depth t depth = (enum_spec (nat depth) t, None))
   \<and> enum_at_depth sequence_fixture 3 =
       ([([0, 0, 0], Lst [Str ''a'', Str ''b'']), ([0, 0, 1], Lst [Str ''c'']),
         ([0, 1, 0], Lst [Str ''d'', Str ''e'']), ([1, 0, 0], Lst [Str ''f'']),
         ([1, 0, 1], Lst [Str ''g'', Str ''h''])], None)
   \<and> sorted_wrt lex_less (map fst (fst (enum_at_depth t depth)))"
  using enum_at_depth_spec [of depth t] sequence_fixture_enum_3 enum_at_depth_sorted [of t depth]
  by blast

theorem enum_at_depth_refines_spec_witness:
  "(1::int) \<le> 4 \<and> (4::int) \<le> 5 \<and> nested_to (nat 4) sequence_fixture
   \<and> enum_at_depth sequence_fixture 4 = (enum_spec (nat 4) sequence_fixture, None)
   \<and> enum_spec (nat 4) sequence_fixture =
       [([0, 0, 0, 0], Str ''a''), ([0, 0, 0, 1], Str ''b''), ([0, 0, 1, 0], Str ''c''),
        ([0, 1, 0, 0], Str ''d''), ([0, 1, 0, 1], Str ''e''), ([1, 0, 0, 0], Str ''f''),
        ([1, 0, 1, 0], Str ''g''), ([1, 0, 1, 1], Str ''h'')]
   \<and> sorted_wrt lex_less (map fst (fst (enum_at_depth sequence_fixture 4)))"
proof -
  have n: "nested_to (nat 4) sequence_fixture"
    by (simp add: sequence_fixture_def eval_nat_numeral)
  have s: "enum_spec (nat 4) sequence_fixture =
       [([0, 0, 0, 0], Str ''a''), ([0, 0, 0, 1], Str ''b''), ([0, 0, 1, 0], Str ''c''),
        ([0, 1, 0, 0], Str ''d''), ([0, 1, 0, 1], Str ''e''), ([1, 0, 0, 0], Str ''f''),
        ([1, 0, 1, 0], Str ''g''), ([1, 0, 1, 1], Str ''h'')]"
    by (simp add: sequence_fixture_def eval_nat_numeral enumerate_eq_zip upt_rec)
  show ?thesis
    using enum_at_depth_refines_spec [of 4 sequence_fixture] n s by simp
qed

text \<open>
  Claim C1, as stated, fails: with \<open>to_depth = 3\<close> the node joined is the cell
  \<open>[["run1","run2"],["run3","run4"]]\<close>, whose items are lists, and \<open>str.join\<close>
  raises \<open>TypeError\<close>.
\<close>

theorem join_leaves_docstring_counterexample:
  "join_leaves 1000 '''' runs_fixture 3 0 = Inl TypeError
   \<and> join_leaves 1000 '''' runs_fixture 3 0
       \<noteq> Inr (Lst [Lst [Lst [Lst [Str ''run1run2'', Str ''run3run4'']]]])"
  using runs_to_depth_3 [of 996] by (simp add: eval_nat_numeral)

text \<open>
  Claim C1, amended. With separator \<open>""\<close> and \<open>to_depth = 4\<close>, the depth of the
  paragraphs whose items are the run-strings, \<open>join_leaves\<close> on the docstring's tree
  returns \<open>[[[["run1run2", "run3run4"]]]]\<close>, given the five stack frames the descent
  needs: each paragraph's runs are concatenated and the lists above are kept.
\<close>

theorem join_leaves_docstring_depth_4:
  assumes "5 \<le> limit"
  shows "join_leaves limit '''' runs_fixture 4 0
       = Inr (Lst [Lst [Lst [Lst [Str ''run1run2'', Str ''run3run4'']]]])"
proof -
  from assms have "limit = Suc (Suc (Suc (Suc (Suc (limit - 5)))))"
    by arith
  then show ?thesis using runs_to_depth_4 [of "limit - 5"] by simp
qed

theorem join_leaves_docstring_depth_4_witness:
  "(5::nat) \<le> 1000
   \<and> join_leaves 1000 '''' runs_fixture 4 0
       = Inr (Lst [Lst [Lst [Lst [Str ''run1run2'', Str ''run3run4'']]]])"
  using join_leaves_docstring_depth_4 [of 1000] by simp

lemma as_strs_all_str: "list_all is_str xs \<Longrightarrow> as_strs xs = Some (map str_of xs)"
proof (induction xs)
  case Nil
  then show ?case by simp
next
  case (Cons x xs)
  then show ?case by (cases x) simp_all
qed

lemma collect_map_Inr:
  assumes "\<And>x. x \<in> set xs \<Longrightarrow> f x = Inr (g x)"
  shows "collect (map f xs) = Inr (map g xs)"
  using assms by (induction xs) simp_all

lemma join_leaves_collapse:
  "leaves_at n t \<Longrightarrow> n < limit \<Longrightarrow>
     join_leaves limit joint t (depth + int n) depth = Inr (collapse n joint t)"
proof (induction n arbitrary: t limit depth)
  case 0
  then obtain xs where t: "t = Lst xs" "list_all is_str xs" by (cases t) simp_all
  from "0.prems"(2) obtain l where l: "limit = Suc l" by (cases limit) simp_all
  show ?case by (simp add: l t py_join_def as_strs_all_str)
next
  case (Suc n)
  then obtain xs where t: "t = Lst xs" "list_all (leaves_at n) xs" by (cases t) simp_all
  from Suc.prems(2) obtain l where l: "limit = Suc l" "n < l" by (cases limit) simp_all
  have "join_leaves l joint b (depth + int (Suc n)) (depth + 1) = Inr (collapse n joint b)"
    if "b \<in> set xs" for b
  proof -
    have "leaves_at n b" using t(2) that by (simp add: list_all_iff)
    from Suc.IH [OF this l(2), of "depth + 1"] show ?thesis by (simp add: add.assoc)
  qed
  then have "collect (map (\<lambda>b. join_leaves l joint b (depth + int (Suc n)) (depth + 1)) xs)
      = Inr (map (collapse n joint) xs)"
    by (rule collect_map_Inr)
  then show ?case by (simp add: l t)
qed

lemma concat_map_cong:
  "(\<And>x. x \<in> set xs \<Longrightarrow> f x = g x) \<Longrightarrow> concat (map f xs) = concat (map g xs)"
  by (induction xs) auto

lemma enum_spec_collapse:
  "leaves_at (Suc n) t \<Longrightarrow>
     enum_spec (Suc n) (collapse (Suc n) joint t)
       = map (\<lambda>(a, x). (a, collapse 0 joint x)) (enum_spec (Suc n) t)"
proof (induction n arbitrary: t)
  case 0
  then obtain xs where t: "t = Lst xs" by (cases t) simp_all
  have "enumerate k (map f xs) = map (\<lambda>(i, x). (i, f x)) (enumerate k xs)" for f :: "pyval \<Rightarrow> pyval" and k
    by (induction xs arbitrary: k) simp_all
  then show ?case by (simp add: t case_prod_unfold comp_def)
next
  case (Suc n)
  then obtain xs where t: "t = Lst xs" "list_all (leaves_at (Suc n)) xs" by (cases t) simp_all
  have e: "enumerate k (map f xs) = map (\<lambda>(i, x). (i, f x)) (enumerate k xs)" for f :: "pyval \<Rightarrow> pyval" and k
    by (induction xs arbitrary: k) simp_all
  have "enum_spec (Suc n) (collapse (Suc n) joint x)
      = map (\<lambda>(a, x). (a, collapse 0 joint x)) (enum_spec (Suc n) x)" if "x \<in> set xs" for x
    using Suc.IH [of x] t(2) that by (simp add: list_all_iff)
  moreover have "collapse (Suc (Suc n)) joint (Lst xs) = Lst (map (collapse (Suc n) joint) xs)"
    by simp
  ultimately show ?case
    unfolding t
    by (auto simp: e case_prod_unfold comp_def map_concat in_set_enumerate_eq
        simp del: collapse.simps(2) intro!: concat_map_cong)
qed

text \<open>
  Claim C8. For every separator, every target depth and every starting depth, on a tree
  whose nodes at the target depth are lists of strings \<open>join_leaves\<close> raises nothing and
  returns the reference collapse, given one stack frame per level: every node at the
  target depth is replaced, at its address, by its leaves joined; a node with no items
  there becomes the empty string; and the joined string has the separator between
  adjacent leaves only, none before the first leaf and none after the last.
\<close>

theorem join_leaves_empty_node:
  "(leaves_at n t \<and> n < limit
      \<longrightarrow> join_leaves limit joint t (int n) 0 = Inr (collapse n joint t)
        \<and> join_leaves limit joint t (depth + int n) depth = Inr (collapse n joint t))
   \<and> (leaves_at (Suc n) t
      \<longrightarrow> enum_spec (Suc n) (collapse (Suc n) joint t)
          = map (\<lambda>(a, x). (a, collapse 0 joint x)) (enum_spec (Suc n) t))
   \<and> collapse 0 joint (Lst []) = Str ''''
   \<and> collapse 0 joint (Lst (map Str ss)) = Str (join_strs joint ss)
   \<and> join_leaves (Suc limit) joint (Lst []) to_depth to_depth = Inr (Str '''')
   \<and> join_strs joint [] = '''' \<and> join_strs joint [s] = s
   \<and> (ss \<noteq> [] \<longrightarrow> join_strs joint (s # ss) = s @ joint @ join_strs joint ss
                 \<and> join_strs joint (ss @ [s]) = join_strs joint ss @ joint @ s)"
  using join_leaves_collapse [of n t limit joint 0] join_leaves_collapse [of n t limit joint depth]
        enum_spec_collapse [of n t joint]
        join_leaves_at_depth [of limit joint "[]" to_depth]
        join_strs_Cons [of ss joint s] join_strs_snoc [of ss joint s]
  by (simp add: comp_def)

theorem join_leaves_empty_node_witness:
  "leaves_at 5 (Lst [Lst [Lst [Lst [Lst [Lst [], Lst [Str ''a'', Str ''b'']]]]]]) \<and> (5::nat) < 1000
   \<and> join_leaves 1000 ''-'' (Lst [Lst [Lst [Lst [Lst [Lst [], Lst [Str ''a'', Str ''b'']]]]]]) (int 5) 0
       = Inr (Lst [Lst [Lst [Lst [Lst [Str '''', Str ''a-b'']]]]])
   \<and> collapse 5 ''-'' (Lst [Lst [Lst [Lst [Lst [Lst [], Lst [Str ''a'', Str ''b'']]]]]])
       = Lst [Lst [Lst [Lst [Lst [Str '''', Str ''a-b'']]]]]
   \<and> [''b''] \<noteq> []
   \<and> join_strs ''-'' [''a'', ''b''] = ''a-b''
   \<and> join_strs ''-'' ([''b''] @ [''a'']) = ''b-a''"
proof -
  have l: "leaves_at 5 (Lst [Lst [Lst [Lst [Lst [Lst [], Lst [Str ''a'', Str ''b'']]]]]])"
    by (simp add: eval_nat_numeral)
  have c: "collapse 5 ''-'' (Lst [Lst [Lst [Lst [Lst [Lst [], Lst [Str ''a'', Str ''b'']]]]]])
       = Lst [Lst [Lst [Lst [Lst [Str '''', Str ''a-b'']]]]]"
    by (simp add: eval_nat_numeral)
  show ?thesis
    using join_leaves_empty_node [of 5 "Lst [Lst [Lst [Lst [Lst [Lst [], Lst [Str ''a'', Str ''b'']]]]]]"
      1000 "''-''" 0 "[''b'']" 0 "''a''"] l c
    by simp
qed

section \<open>The loops of get_html_map as maps\<close>

lemma for_each_append:
  "for_each body (xs @ ys, r) s =
     (case for_each body (xs, None) s of Inl e \<Rightarrow> Inl e | Inr s' \<Rightarrow> for_each body (ys, r) s')"
  by (induction xs arbitrary: s) (auto split: sum.split)

lemma assign_lift:
  assumes "i < length ys" "\<And>a y. (a, y) \<in> set items \<Longrightarrow> a \<noteq> []"
  shows "for_each (assign_body g) (map (\<lambda>(a, y). (i # a, y)) items, None) (Lst ys) =
     (case for_each (assign_body (\<lambda>a. g (i # a))) (items, None) (ys ! i) of
        Inl e \<Rightarrow> Inl e
      | Inr c \<Rightarrow> Inr (Lst (ys[i := c])))"
  using assms
proof (induction items arbitrary: ys)
  case Nil
  then show ?case by simp
next
  case (Cons item items)
  obtain a y where item: "item = (a, y)" by (cases item)
  with Cons.prems(2) obtain j rest where a: "a = j # rest" by (cases a) auto
  show ?case
  proof (cases "g (i # a) y")
    case (Inl e)
    then show ?thesis by (simp add: item assign_body_def)
  next
    case (Inr v)
    show ?thesis
    proof (cases "assign_at (ys ! i) a v")
      case (Inl e)
      with Inr Cons.prems(1) show ?thesis by (simp add: item a assign_body_def)
    next
      case c: (Inr c)
      have step: "assign_body g (Lst ys) (i # a, y) = Inr (Lst (ys[i := c]))"
        using Inr c Cons.prems(1) by (simp add: a assign_body_def)
      have step': "assign_body (\<lambda>a. g (i # a)) (ys ! i) (a, y) = Inr c"
        using Inr c by (simp add: assign_body_def)
      have "for_each (assign_body g) (map (\<lambda>(a, y). (i # a, y)) items, None) (Lst (ys[i := c])) =
         (case for_each (assign_body (\<lambda>a. g (i # a))) (items, None) (ys[i := c] ! i) of
            Inl e \<Rightarrow> Inl e | Inr c' \<Rightarrow> Inr (Lst (ys[i := c, i := c'])))"
      proof -
        have len: "i < length (ys[i := c])" using Cons.prems(1) by simp
        have ne: "\<And>a y. (a, y) \<in> set items \<Longrightarrow> a \<noteq> []"
          using Cons.prems(2) by auto
        show ?thesis using Cons.IH [OF len ne] .
      qed
      then show ?thesis
        using step step' Cons.prems(1) by (simp add: item split: sum.split)
    qed
  qed
qed

lemma take_Suc_update:
  "k < length ys \<Longrightarrow> take (Suc k) (ys[k := v]) = take k ys @ [v]"
  by (simp add: take_Suc_conv_app_nth)

lemma assign_blocks:
  assumes "k + length xs \<le> length ys"
    and "\<And>n. n < length xs \<Longrightarrow> ys ! (k + n) = xs ! n"
    and "\<And>n. n < length xs \<Longrightarrow>
           for_each (assign_body (\<lambda>a. g ((k + n) # a))) (E (xs ! n), None) (xs ! n) = Inr (F (k + n) (xs ! n))"
    and "\<And>x a y. x \<in> set xs \<Longrightarrow> (a, y) \<in> set (E x) \<Longrightarrow> a \<noteq> []"
  shows "for_each (assign_body g)
           (concat (map (\<lambda>(i, x). map (\<lambda>(a, y). (i # a, y)) (E x)) (enumerate k xs)), None) (Lst ys)
       = Inr (Lst (take k ys @ map (\<lambda>(i, x). F i x) (enumerate k xs) @ drop (k + length xs) ys))"
  using assms
proof (induction xs arbitrary: k ys)
  case Nil
  then show ?case by simp
next
  case (Cons x xs)
  have k: "k < length ys" using Cons.prems(1) by simp
  have x: "ys ! k = x" using Cons.prems(2) [of 0] by simp
  have child: "for_each (assign_body (\<lambda>a. g (k # a))) (E x, None) x = Inr (F k x)"
    using Cons.prems(3) [of 0] by simp
  have ne: "\<And>a y. (a, y) \<in> set (E x) \<Longrightarrow> a \<noteq> []"
    using Cons.prems(4) [of x] by simp
  have block: "for_each (assign_body g) (map (\<lambda>(a, y). (k # a, y)) (E x), None) (Lst ys)
       = Inr (Lst (ys[k := F k x]))"
    using assign_lift [OF k ne, where g = g] child x by simp
  let ?ys = "ys[k := F k x]"
  have rest: "for_each (assign_body g)
           (concat (map (\<lambda>(i, x). map (\<lambda>(a, y). (i # a, y)) (E x)) (enumerate (Suc k) xs)), None) (Lst ?ys)
       = Inr (Lst (take (Suc k) ?ys @ map (\<lambda>(i, x). F i x) (enumerate (Suc k) xs)
                    @ drop (Suc k + length xs) ?ys))"
  proof (rule Cons.IH)
    show "Suc k + length xs \<le> length ?ys" using Cons.prems(1) by simp
    show "?ys ! (Suc k + n) = xs ! n" if "n < length xs" for n
      using Cons.prems(2) [of "Suc n"] that by simp
    show "for_each (assign_body (\<lambda>a. g ((Suc k + n) # a))) (E (xs ! n), None) (xs ! n)
        = Inr (F (Suc k + n) (xs ! n))" if "n < length xs" for n
      using Cons.prems(3) [of "Suc n"] that by simp
    show "a \<noteq> []" if "x \<in> set xs" "(a, y) \<in> set (E x)" for x a y
      using Cons.prems(4) [of x a y] that by simp
  qed
  show ?case
    using block rest k by (simp add: for_each_append take_Suc_update)
qed

lemma assign_singletons:
  assumes "k + length xs \<le> length ys"
    and "\<And>n. n < length xs \<Longrightarrow> g [k + n] (xs ! n) = Inr (f [k + n] (xs ! n))"
  shows "for_each (assign_body g) (map (\<lambda>(i, x). ([i], x)) (enumerate k xs), None) (Lst ys)
       = Inr (Lst (take k ys @ map (\<lambda>(i, x). f [i] x) (enumerate k xs) @ drop (k + length xs) ys))"
  using assms
proof (induction xs arbitrary: k ys)
  case Nil
  then show ?case by simp
next
  case (Cons x xs)
  have k: "k < length ys" using Cons.prems(1) by simp
  have gx: "g [k] x = Inr (f [k] x)" using Cons.prems(2) [of 0] by simp
  let ?ys = "ys[k := f [k] x]"
  have step: "assign_body g (Lst ys) ([k], x) = Inr (Lst ?ys)"
    using gx k by (simp add: assign_body_def)
  have rest: "for_each (assign_body g) (map (\<lambda>(i, x). ([i], x)) (enumerate (Suc k) xs), None) (Lst ?ys)
       = Inr (Lst (take (Suc k) ?ys @ map (\<lambda>(i, x). f [i] x) (enumerate (Suc k) xs)
                    @ drop (Suc k + length xs) ?ys))"
  proof (rule Cons.IH)
    show "Suc k + length xs \<le> length ?ys" using Cons.prems(1) by simp
    show "g [Suc k + n] (xs ! n) = Inr (f [Suc k + n] (xs ! n))" if "n < length xs" for n
      using Cons.prems(2) [of "Suc n"] that by simp
  qed
  show ?case
    using step rest k by (simp add: take_Suc_update)
qed

lemma enum_spec_nonempty:
  "(a, y) \<in> set (enum_spec n t) \<Longrightarrow> a \<noteq> []"
  by (induction n t rule: enum_spec.induct) auto

lemma lists_to_Suc: "lists_to (Suc n) t \<Longrightarrow> \<exists>xs. t = Lst xs \<and> list_all (lists_to n) xs"
  by (cases t) simp_all

lemma for_each_assign_amap:
  assumes "lists_to (Suc n) t"
    and "\<And>a x. (a, x) \<in> set (enum_spec (Suc n) t) \<Longrightarrow> g a x = Inr (f a x)"
  shows "for_each (assign_body g) (enum_spec (Suc n) t, None) t = Inr (amap (Suc n) f t)"
  using assms
proof (induction n arbitrary: t f g)
  case 0
  from lists_to_Suc [OF "0.prems"(1)] obtain xs where t: "t = Lst xs" by auto
  have "g [0 + n] (xs ! n) = Inr (f [0 + n] (xs ! n))" if "n < length xs" for n
  proof -
    have "([n], xs ! n) \<in> set (enum_spec (Suc 0) t)"
      using that by (force simp: t in_set_enumerate_eq)
    from "0.prems"(2) [OF this] show ?thesis by simp
  qed
  from assign_singletons [of 0 xs xs g f, OF _ this]
  show ?case by (simp add: t imap_def)
next
  case (Suc n)
  from lists_to_Suc [OF Suc.prems(1)] obtain xs where t: "t = Lst xs"
    and xs: "list_all (lists_to (Suc n)) xs" by auto
  have child: "for_each (assign_body (\<lambda>a. g ((0 + m) # a))) (enum_spec (Suc n) (xs ! m), None) (xs ! m)
       = Inr (amap (Suc n) (\<lambda>a. f ((0 + m) # a)) (xs ! m))" if m: "m < length xs" for m
  proof (rule Suc.IH)
    show "lists_to (Suc n) (xs ! m)" using xs m by (simp add: list_all_length)
    show "g ((0 + m) # a) x = Inr (f ((0 + m) # a) x)" if "(a, x) \<in> set (enum_spec (Suc n) (xs ! m))" for a x
    proof -
      have "(m # a, x) \<in> set (enum_spec (Suc (Suc n)) t)"
        using that m by (force simp: t in_set_enumerate_eq)
      from Suc.prems(2) [OF this] show ?thesis by simp
    qed
  qed
  have ne: "\<And>x a y. x \<in> set xs \<Longrightarrow> (a, y) \<in> set (enum_spec (Suc n) x) \<Longrightarrow> a \<noteq> []"
    using enum_spec_nonempty by blast
  from assign_blocks [of 0 xs xs g "enum_spec (Suc n)" "\<lambda>i. amap (Suc n) (\<lambda>a. f (i # a))", OF _ _ child ne]
  show ?case by (simp add: t imap_def)
qed

lemma prepend_index_body:
  "prepend_index = assign_body (\<lambda>a x. case py_join '''' x of Inl e \<Rightarrow> Inl e
       | Inr s \<Rightarrow> Inr (Str (join_strs '' '' [str_tuple a, s])))"
  by (auto simp: prepend_index_def assign_body_def fun_eq_iff split: sum.split)

lemma wrap_at_body:
  "wrap_at repr opening closing = assign_body (\<lambda>a v. case wrap_items repr opening closing v of
       Inl e \<Rightarrow> Inl e | Inr s \<Rightarrow> Inr (Str s))"
  by (auto simp: wrap_at_def assign_body_def fun_eq_iff split: sum.split)

lemma lists_to_nested: "lists_to n t \<Longrightarrow> nested_to n t"
proof (induction n arbitrary: t)
  case 0
  then show ?case by simp
next
  case (Suc n)
  from lists_to_Suc [OF Suc.prems] obtain xs where "t = Lst xs" "list_all (lists_to n) xs" by auto
  with Suc.IH show ?case by (auto simp: list_all_iff)
qed

lemma lists_to_less: "lists_to (Suc n) t \<Longrightarrow> lists_to n t"
proof (induction n arbitrary: t)
  case 0
  then show ?case by simp
next
  case (Suc n)
  from lists_to_Suc [OF Suc.prems] obtain xs where "t = Lst xs" "list_all (lists_to (Suc n)) xs" by auto
  with Suc.IH show ?case by (auto simp: list_all_iff)
qed

lemma set_imap: "set (imap f xs) = (\<lambda>(i, x). f i x) ` set (enumerate 0 xs)"
  by (simp add: imap_def)

lemma lists_to_amap: "lists_to n (amap n f t)"
proof (induction n arbitrary: f t)
  case 0
  then show ?case by simp
next
  case (Suc n)
  then show ?case by (auto simp: list_all_iff set_imap)
qed

lemma enum_spec_items_lists:
  "lists_to (Suc n + m) t \<Longrightarrow> (a, x) \<in> set (enum_spec (Suc n) t) \<Longrightarrow> lists_to m x"
proof (induction n arbitrary: t a)
  case 0
  from lists_to_Suc [of "m" t] "0.prems"(1) obtain xs where "t = Lst xs" "list_all (lists_to m) xs"
    by auto
  with "0.prems"(2) show ?case by (auto simp: list_all_iff in_set_enumerate_eq)
next
  case (Suc n)
  from lists_to_Suc [of "Suc n + m" t] Suc.prems(1) obtain xs where t: "t = Lst xs"
    and xs: "list_all (lists_to (Suc n + m)) xs" by auto
  from Suc.prems(2) obtain i c b where "(i, c) \<in> set (enumerate 0 xs)" "(b, x) \<in> set (enum_spec (Suc n) c)"
    by (auto simp: t)
  then have "c \<in> set xs" "(b, x) \<in> set (enum_spec (Suc n) c)" by (auto simp: in_set_enumerate_eq)
  with xs Suc.IH [of c b] show ?case by (auto simp: list_all_iff)
qed

lemma loop_wrap:
  assumes "lists_to (Suc (Suc n)) t" "Suc n \<le> 5"
  shows "for_each (wrap_at repr opening closing) (enum_at_depth t (int (Suc n))) t
       = Inr (amap (Suc n) (wrapped repr opening closing) t)"
proof -
  have l: "lists_to (Suc n) t" using assms(1) by (rule lists_to_less)
  have e: "enum_at_depth t (int (Suc n)) = (enum_spec (Suc n) t, None)"
    using enum_at_depth_spec_nat [of "Suc n" t] assms(2) lists_to_nested [OF l] by simp
  have g: "(case wrap_items repr opening closing x of Inl e \<Rightarrow> Inl e | Inr s \<Rightarrow> Inr (Str s))
       = Inr (wrapped repr opening closing a x)" if "(a, x) \<in> set (enum_spec (Suc n) t)" for a x
  proof -
    have "lists_to 1 x" using enum_spec_items_lists [of n 1 t a x] assms(1) that by simp
    then obtain xs where "x = Lst xs" using lists_to_Suc [of 0 x] by auto
    then show ?thesis by (simp add: wrap_items_def wrapped_def)
  qed
  show ?thesis
    unfolding e wrap_at_body using l g by (rule for_each_assign_amap)
qed

lemma loop_prepend:
  assumes "lists_to 4 t" "\<And>a x. (a, x) \<in> set (enum_spec 4 t) \<Longrightarrow> \<exists>s. py_join '''' x = Inr s"
  shows "for_each prepend_index (enum_at_depth t 4) t = Inr (amap 4 indexed_par t)"
proof -
  have e: "enum_at_depth t 4 = (enum_spec 4 t, None)"
    using enum_at_depth_spec [of 4 t] lists_to_nested [OF assms(1)] by simp
  have g: "(case py_join '''' x of Inl e \<Rightarrow> Inl e | Inr s \<Rightarrow> Inr (Str (join_strs '' '' [str_tuple a, s])))
       = Inr (indexed_par a x)" if "(a, x) \<in> set (enum_spec 4 t)" for a x
    using assms(2) [OF that] by (auto simp: indexed_par_def par_text_def)
  have 4: "(4::nat) = Suc 3" by simp
  show ?thesis
    unfolding e prepend_index_body
    using assms(1) g unfolding 4 by (rule for_each_assign_amap)
qed

lemma get_html_map_amap:
  assumes "lists_to 4 t" "\<And>a x. (a, x) \<in> set (enum_spec 4 t) \<Longrightarrow> \<exists>s. py_join '''' x = Inr s"
  shows \<open>get_html_map repr t =
    Inr (''<html><body>''
         @ join_strs '''' (map (\<lambda>x. ''<table border="1">'' @ py_str repr x @ ''</table>'')
             (seq_items (amap 1 (wrapped repr ''<tr>'' ''</tr>'')
                (amap 2 (wrapped repr ''<td>'' ''</td>'')
                  (amap 3 (wrapped repr ''<pre>'' ''</pre>'') (amap 4 indexed_par t))))))
         @ ''</body></html>'')\<close>
proof -
  let ?s4 = "amap 4 indexed_par t"
  let ?s3 = "amap 3 (wrapped repr ''<pre>'' ''</pre>'') ?s4"
  let ?s2 = "amap 2 (wrapped repr ''<td>'' ''</td>'') ?s3"
  let ?s1 = "amap 1 (wrapped repr ''<tr>'' ''</tr>'') ?s2"
  have l4: "for_each prepend_index (enum_at_depth t 4) t = Inr ?s4"
    using assms by (rule loop_prepend)
  have l3: "for_each (wrap_at repr ''<pre>'' ''</pre>'') (enum_at_depth ?s4 3) ?s4 = Inr ?s3"
    using loop_wrap [of 2 ?s4 repr "''<pre>''" "''</pre>''"] lists_to_amap [of 4 indexed_par t]
    by (simp add: eval_nat_numeral)
  have l2: "for_each (wrap_at repr ''<td>'' ''</td>'') (enum_at_depth ?s3 2) ?s3 = Inr ?s2"
    using loop_wrap [of 1 ?s3 repr "''<td>''" "''</td>''"] lists_to_amap [of 3 _ ?s4]
    by (simp add: eval_nat_numeral)
  have l1: "for_each (wrap_at repr ''<tr>'' ''</tr>'') (enum_at_depth ?s2 1) ?s2 = Inr ?s1"
    using loop_wrap [of 0 ?s2 repr "''<tr>''" "''</tr>''"] lists_to_amap [of 2 _ ?s3]
    by (simp add: eval_nat_numeral)
  have w: \<open>wrap_items repr ''<table border="1">'' ''</table>'' ?s1
     = Inr (join_strs '''' (map (\<lambda>x. ''<table border="1">'' @ py_str repr x @ ''</table>'') (seq_items ?s1)))\<close>
    by (simp add: wrap_items_def eval_nat_numeral)
  show ?thesis
    by (simp only: get_html_map_def l4 l3 l2 l1 w sum.case)
qed

lemma enumerate_map: "enumerate n (map g xs) = map (\<lambda>(i, x). (i, g x)) (enumerate n xs)"
  by (induction xs arbitrary: n) simp_all

lemma imap_map: "imap f (map g xs) = imap (\<lambda>i x. f i (g x)) xs"
  by (simp add: imap_def enumerate_map case_prod_unfold comp_def)

lemma length_imap [simp]: "length (imap f xs) = length xs"
  by (simp add: imap_def)

lemma enumerate_imap_aux:
  "enumerate n (map (\<lambda>(i, x). g i x) (enumerate n xs)) = map (\<lambda>(i, x). (i, g i x)) (enumerate n xs)"
  by (induction xs arbitrary: n) simp_all

lemma imap_imap: "imap f (imap g xs) = imap (\<lambda>i x. f i (g i x)) xs"
  unfolding imap_def enumerate_imap_aux by (simp add: case_prod_unfold comp_def)

lemma map_imap: "map f (imap g xs) = imap (\<lambda>i x. f (g i x)) xs"
  by (simp add: imap_def case_prod_unfold comp_def)

lemma text_table_lists: "lists_to 4 (text_table T)"
  by (simp add: text_table_def eval_nat_numeral list_all_iff)

lemma enum_spec_text_table:
  "(a, x) \<in> set (enum_spec 4 (text_table T)) \<Longrightarrow> \<exists>runs. x = Lst (map Str runs)"
  apply (auto simp: text_table_def eval_nat_numeral in_set_enumerate_eq)
  apply blast
  done

section \<open>Counting tags\<close>





























section \<open>The HTML map of a text table\<close>

lemma working_tree_html:
  "seq_items (amap 1 (wrapped repr ''<tr>'' ''</tr>'')
                (amap 2 (wrapped repr ''<td>'' ''</td>'')
                  (amap 3 (wrapped repr ''<pre>'' ''</pre>'') (amap 4 indexed_par (text_table T)))))
   = imap (\<lambda>i table. Str (concat (imap (\<lambda>j row. html_row i j row) table))) T"
  by (simp add: text_table_def eval_nat_numeral imap_map imap_imap map_imap indexed_par_def
      par_text_def wrapped_def paragraph_text_def py_join_def
      html_row_def html_cell_def html_paragraph_def)

lemma get_html_map_html_doc:
  "get_html_map repr (text_table T) = Inr (html_doc T)"
proof -
  have j: "\<exists>s. py_join '''' x = Inr s" if "(a, x) \<in> set (enum_spec 4 (text_table T))" for a x
    using enum_spec_text_table [OF that] by (auto simp: py_join_def)
  have \<open>get_html_map repr (text_table T) =
    Inr (''<html><body>''
         @ join_strs [] (map (\<lambda>x. ''<table border="1">'' @ py_str repr x @ ''</table>'')
             (seq_items (amap 1 (wrapped repr ''<tr>'' ''</tr>'')
                (amap 2 (wrapped repr ''<td>'' ''</td>'')
                  (amap 3 (wrapped repr ''<pre>'' ''</pre>'') (amap 4 indexed_par (text_table T)))))))
         @ ''</body></html>'')\<close>
    using text_table_lists j by (rule get_html_map_amap)
  then show ?thesis
    unfolding working_tree_html html_doc_def html_table_def
    by (simp add: map_imap)
qed


section \<open>Claims on the HTML map\<close>









section \<open>What a call leaves unchanged\<close>

lemma closed_fromD:
  "closed_from n0 st \<Longrightarrow> n0 \<le> b \<Longrightarrow> b < length st \<Longrightarrow> x \<in> set (st ! b) \<Longrightarrow> fresh n0 x"
proof -
  assume c: "closed_from n0 st" and b: "n0 \<le> b" "b < length st" and x: "x \<in> set (st ! b)"
  have "st ! b = drop n0 st ! (b - n0)" using b by simp
  moreover have "b - n0 < length (drop n0 st)" using b by simp
  ultimately have "st ! b \<in> set (drop n0 st)" by (metis nth_mem)
  with c x show ?thesis by (auto simp: closed_from_def list_all_iff)
qed

lemma closed_fromI:
  assumes "n0 \<le> length st"
    "\<And>b x. n0 \<le> b \<Longrightarrow> b < length st \<Longrightarrow> x \<in> set (st ! b) \<Longrightarrow> fresh n0 x"
  shows "closed_from n0 st"
proof -
  have "fresh n0 x" if "xs \<in> set (drop n0 st)" "x \<in> set xs" for xs x
  proof -
    from that(1) obtain k where k: "k < length (drop n0 st)" "xs = drop n0 st ! k"
      by (auto simp: in_set_conv_nth)
    then have "xs = st ! (n0 + k)" "n0 + k < length st" by auto
    with assms(2) [of "n0 + k" x] that(2) show ?thesis by simp
  qed
  with assms(1) show ?thesis by (auto simp: closed_from_def list_all_iff)
qed

lemma closed_from_length: "closed_from n0 st \<Longrightarrow> n0 \<le> length st"
  by (simp add: closed_from_def)

lemma closed_from_update:
  assumes "closed_from n0 st" "n0 \<le> a" "a < length st" "list_all (fresh n0) xs"
  shows "closed_from n0 (st[a := xs]) \<and> take n0 (st[a := xs]) = take n0 st"
proof
  show "closed_from n0 (st[a := xs])"
  proof (rule closed_fromI)
    show "n0 \<le> length (st[a := xs])" using closed_from_length [OF assms(1)] by simp
    fix b x assume b: "n0 \<le> b" "b < length (st[a := xs])" "x \<in> set (st[a := xs] ! b)"
    show "fresh n0 x"
    proof (cases "b = a")
      case True
      with b assms(3,4) show ?thesis by (auto simp: list_all_iff)
    next
      case False
      with b closed_fromD [OF assms(1), of b x] show ?thesis by simp
    qed
  qed
  show "take n0 (st[a := xs]) = take n0 st" using assms(2) by simp
qed

lemma s_item_fresh:
  assumes "closed_from n0 st" "fresh n0 v" "s_item st v i = Some c"
  shows "fresh n0 c"
proof (cases v)
  case (SStr s)
  with assms(3) show ?thesis by (auto split: if_splits)
next
  case (SRef a)
  with assms(3) have a: "a < length st" "i < length (st ! a)" "c = st ! a ! i"
    by (auto split: if_splits)
  from SRef assms(2) have "n0 \<le> a" by simp
  from closed_fromD [OF assms(1) this a(1), of c] a show ?thesis by simp
qed

lemma s_setitem_frame:
  assumes "closed_from n0 st" "fresh n0 v" "fresh n0 w" "s_setitem st v i w = Returned st'"
  shows "closed_from n0 st' \<and> take n0 st' = take n0 st"
proof (cases v)
  case (SStr s)
  with assms(4) show ?thesis by simp
next
  case (SRef a)
  with assms(4) have a: "a < length st" "i < length (st ! a)" "st' = st[a := (st ! a)[i := w]]"
    by (auto split: if_splits)
  from SRef assms(2) have n: "n0 \<le> a" by simp
  have "list_all (fresh n0) ((st ! a)[i := w])"
    using closed_fromD [OF assms(1) n a(1)] assms(3)
    by (auto simp: list_all_iff dest!: set_update_subset_insert [THEN subsetD])
  from closed_from_update [OF assms(1) n a(1) this] a(3) show ?thesis by simp
qed

lemma s_assign_frame:
  assumes "closed_from n0 st" "fresh n0 v" "fresh n0 w" "s_assign st v path w = Returned st'"
  shows "closed_from n0 st' \<and> take n0 st' = take n0 st"
  using assms
proof (induction st v path w rule: s_assign.induct)
  case (1 st t w)
  then show ?case by simp
next
  case (2 st t i w)
  then show ?case using s_setitem_frame [of n0 st t w i st'] by simp
next
  case (3 st t i j rest w)
  from "3.prems"(4) obtain c where c: "s_item st t i = Some c" "s_assign st c (j # rest) w = Returned st'"
    by (auto split: option.splits outcome.splits)
  from s_item_fresh [OF "3.prems"(1,2) c(1)] have "fresh n0 c" .
  with "3.IH" [of c] c "3.prems" show ?case by simp
qed

lemma s_for_enum_frame:
  assumes body: "\<And>st a x st'. closed_from n0 st \<Longrightarrow> body st a x = Returned st'
      \<Longrightarrow> closed_from n0 st' \<and> take n0 st' = take n0 st"
  shows "closed_from n0 st \<Longrightarrow> s_for_enum fuel d body pre v n st = Returned st'
      \<Longrightarrow> closed_from n0 st' \<and> take n0 st' = take n0 st"
proof (induction fuel arbitrary: d pre v n st st')
  case 0
  then show ?case by simp
next
  case (Suc fuel)
  show ?case
  proof (cases "s_item st v n")
    case None
    with Suc.prems show ?thesis by simp
  next
    case (Some x)
    let ?inner = "case d of 0 \<Rightarrow> body st (pre @ [n]) x
                  | Suc d' \<Rightarrow> s_for_enum fuel d' body (pre @ [n]) x 0 st"
    from Suc.prems(2) Some obtain st1 where st1: "?inner = Returned st1"
      and rest: "s_for_enum fuel d body pre v (Suc n) st1 = Returned st'"
      by (auto split: outcome.splits)
    have 1: "closed_from n0 st1 \<and> take n0 st1 = take n0 st"
    proof (cases d)
      case 0
      with st1 body [OF Suc.prems(1)] show ?thesis by simp
    next
      case (Suc d')
      with st1 Suc.IH [OF Suc.prems(1)] show ?thesis by simp
    qed
    with Suc.IH [of st1 d pre v "Suc n" st'] rest show ?thesis by simp
  qed
qed

lemma s_for_enum_read_only:
  assumes body: "\<And>st a x st'. body st a x = Returned st' \<Longrightarrow> st' = st"
  shows "s_for_enum fuel d body pre v n st = Returned st' \<Longrightarrow> st' = st"
proof (induction fuel arbitrary: d pre v n st')
  case 0
  then show ?case by simp
next
  case (Suc fuel)
  show ?case
  proof (cases "s_item st v n")
    case None
    with Suc.prems show ?thesis by simp
  next
    case (Some x)
    let ?inner = "case d of 0 \<Rightarrow> body st (pre @ [n]) x
                  | Suc d' \<Rightarrow> s_for_enum fuel d' body (pre @ [n]) x 0 st"
    from Suc.prems Some obtain st1 where st1: "?inner = Returned st1"
      and rest: "s_for_enum fuel d body pre v (Suc n) st1 = Returned st'"
      by (auto split: outcome.splits)
    have "st1 = st"
    proof (cases d)
      case 0
      with st1 body show ?thesis by simp
    next
      case (Suc d')
      with st1 Suc.IH show ?thesis by simp
    qed
    with Suc.IH rest show ?thesis by simp
  qed
qed

lemma closed_from_append_empty:
  "closed_from n0 st \<Longrightarrow> closed_from n0 (st @ [[]])"
  by (auto simp: closed_from_def)

lemma deepcopy_frame:
  "(closed_from n0 st \<longrightarrow> memo_fresh n0 memo \<longrightarrow> deepcopy fuel memo x st = Returned (x', memo', st')
      \<longrightarrow> closed_from n0 st' \<and> memo_fresh n0 memo' \<and> take n0 st' = take n0 st
          \<and> length st \<le> length st' \<and> fresh n0 x')"
  "(closed_from n0 st \<longrightarrow> memo_fresh n0 memo \<longrightarrow> n0 \<le> y \<longrightarrow> y < length st
      \<longrightarrow> copy_items fuel memo a y n st = Returned (x', memo', st')
      \<longrightarrow> closed_from n0 st' \<and> memo_fresh n0 memo' \<and> take n0 st' = take n0 st
          \<and> length st \<le> length st' \<and> fresh n0 x')"
proof (induction fuel memo x st and fuel memo a y n st arbitrary: x' memo' st' and x' memo' st'
    rule: deepcopy_copy_items.induct)
  case (1 memo x st)
  then show ?case by simp
next
  case (2 fuel memo s st)
  then show ?case by auto
next
  case (3 fuel memo a st)
  show ?case
  proof (intro impI)
    assume c: "closed_from n0 st" and m: "memo_fresh n0 memo"
      and r: "deepcopy (Suc fuel) memo (SRef a) st = Returned (x', memo', st')"
    show "closed_from n0 st' \<and> memo_fresh n0 memo' \<and> take n0 st' = take n0 st
          \<and> length st \<le> length st' \<and> fresh n0 x'"
    proof (cases "map_of memo a")
      case (Some y)
      then have "(a, y) \<in> set memo" by (rule map_of_SomeD)
      with m have "n0 \<le> y" by (auto simp: memo_fresh_def list_all_iff)
      with Some r c m show ?thesis by auto
    next
      case None
      with r have r': "copy_items fuel ((a, length st) # memo) a (length st) 0 (st @ [[]])
          = Returned (x', memo', st')" by simp
      have n: "n0 \<le> length st" using closed_from_length [OF c] .
      have "closed_from n0 st' \<and> memo_fresh n0 memo' \<and> take n0 st' = take n0 (st @ [[]])
          \<and> length (st @ [[]]) \<le> length st' \<and> fresh n0 x'"
        using "3.IH" [OF None, of x' memo' st'] closed_from_append_empty [OF c] m n r'
        by (simp add: memo_fresh_def)
      with n show ?thesis by simp
    qed
  qed
next
  case (4 memo a y n st)
  then show ?case by simp
next
  case (5 fuel memo a y n st)
  show ?case
  proof (intro impI)
    assume c: "closed_from n0 st" and m: "memo_fresh n0 memo" and y: "n0 \<le> y" "y < length st"
      and r: "copy_items (Suc fuel) memo a y n st = Returned (x', memo', st')"
    show "closed_from n0 st' \<and> memo_fresh n0 memo' \<and> take n0 st' = take n0 st
          \<and> length st \<le> length st' \<and> fresh n0 x'"
    proof (cases "s_item st (SRef a) n")
      case None
      with r c m y show ?thesis by auto
    next
      case (Some x)
      from r Some obtain x1 memo1 st1 where d: "deepcopy fuel memo x st = Returned (x1, memo1, st1)"
        and r': "copy_items fuel memo1 a y (Suc n) (st1[y := st1 ! y @ [x1]]) = Returned (x', memo', st')"
        by (auto split: outcome.splits)
      from "5.IH"(1) [OF Some, of x1 memo1 st1] c m d
      have 1: "closed_from n0 st1" "memo_fresh n0 memo1" "take n0 st1 = take n0 st"
        "length st \<le> length st1" "fresh n0 x1" by simp_all
      have y1: "y < length st1" using y(2) 1(4) by simp
      have "list_all (fresh n0) (st1 ! y @ [x1])"
        using closed_fromD [OF 1(1) y(1) y1] 1(5) by (auto simp: list_all_iff)
      from closed_from_update [OF 1(1) y(1) y1 this]
      have 2: "closed_from n0 (st1[y := st1 ! y @ [x1]])"
        "take n0 (st1[y := st1 ! y @ [x1]]) = take n0 st1" by simp_all
      from "5.IH"(2) [OF Some d refl refl, of x' memo' st'] 2 1 y y1 r'
      show ?thesis by simp
    qed
  qed
qed

lemma s_join_leaves_prefix:
  "s_join_leaves limit joint v to_depth depth st = Returned (r, st') \<longrightarrow> prefix st st'"
  "s_join_each limit joint vs to_depth depth st = Returned (rs, st') \<longrightarrow> prefix st st'"
proof (induction limit joint v to_depth depth st and limit joint vs to_depth depth st
    arbitrary: r st' and rs st' rule: s_join_leaves_s_join_each.induct)
  case (1 joint str_tree to_depth depth st)
  then show ?case by simp
next
  case (2 limit joint str_tree to_depth depth st)
  show ?case
  proof (cases "depth = to_depth")
    case True
    then show ?thesis by (auto split: outcome.splits)
  next
    case False
    show ?thesis
    proof
      assume "s_join_leaves (Suc limit) joint str_tree to_depth depth st = Returned (r, st')"
      with False obtain rs st1 where
        1: "s_join_each limit joint (s_items st str_tree) to_depth (depth + 1) st = Returned (rs, st1)"
        and 2: "st' = st1 @ [rs]"
        by (auto split: outcome.splits)
      from "2.IH" [OF False, of rs st1] 1 have "prefix st st1" by simp
      with 2 show "prefix st st'" by (simp add: prefix_prefix)
    qed
  qed
next
  case (3 limit joint to_depth depth st)
  then show ?case by simp
next
  case (4 limit joint b bs to_depth depth st)
  show ?case
  proof
    assume "s_join_each limit joint (b # bs) to_depth depth st = Returned (rs, st')"
    then obtain r1 st1 rs2 where
      1: "s_join_leaves limit joint b to_depth depth st = Returned (r1, st1)"
      and 2: "s_join_each limit joint bs to_depth depth st1 = Returned (rs2, st')"
      by (auto split: outcome.splits)
    from "4.IH"(1) [of r1 st1] 1 have "prefix st st1" by simp
    moreover from "4.IH"(2) [OF 1 refl, of rs2 st'] 2 have "prefix st1 st'" by simp
    ultimately show "prefix st st'" by (rule prefix_order.trans)
  qed
qed

lemma those_map_cong:
  assumes "those (map f xs) = Some ys" "\<And>x y. x \<in> set xs \<Longrightarrow> f x = Some y \<Longrightarrow> g x = Some y"
  shows "those (map g xs) = Some ys"
  using assms
proof (induction xs arbitrary: ys)
  case Nil
  then show ?case by simp
next
  case (Cons x xs)
  from Cons.prems(1) obtain y ys' where y: "f x = Some y" "those (map f xs) = Some ys'" "ys = y # ys'"
    by (auto split: option.splits)
  from Cons.IH [OF y(2)] Cons.prems(2) have "those (map g xs) = Some ys'" by simp
  with Cons.prems(2) [of x y] y show ?case by simp
qed

lemma read_tree_prefix:
  "prefix st st' \<Longrightarrow> read_tree k st v = Some t \<Longrightarrow> read_tree k st' v = Some t"
proof (induction k arbitrary: v t)
  case 0
  then show ?case by simp
next
  case (Suc k)
  show ?case
  proof (cases v)
    case (SStr s)
    with Suc.prems show ?thesis by simp
  next
    case (SRef a)
    with Suc.prems(2) obtain ts where a: "a < length st"
      and ts: "those (map (read_tree k st) (st ! a)) = Some ts" and t: "t = Lst ts"
      by (auto split: if_splits)
    from Suc.prems(1) a have eq: "st' ! a = st ! a" "a < length st'"
      by (auto simp: prefix_def nth_append)
    have "those (map (read_tree k st') (st ! a)) = Some ts"
      using ts Suc.IH [OF Suc.prems(1)] by (rule those_map_cong)
    with eq t SRef show ?thesis by simp
  qed
qed

lemma take_prefix: "take (length st) st' = st \<Longrightarrow> prefix st st'"
  by (metis take_is_prefix)

lemma closed_from_self: "closed_from (length st) st"
  by (simp add: closed_from_def)

lemma s_prepend_index_frame:
  assumes "fresh n0 work" "closed_from n0 st" "s_prepend_index work st a x = Returned st'"
  shows "closed_from n0 st' \<and> take n0 st' = take n0 st"
proof -
  from assms(3) obtain w where "s_assign st work a (SStr w) = Returned st'"
    by (auto simp: s_prepend_index_def split: outcome.splits)
  from s_assign_frame [OF assms(2,1) _ this] show ?thesis by simp
qed

lemma s_wrap_at_frame:
  assumes "fresh n0 work" "closed_from n0 st" "s_wrap_at repr otag ctag work st a x = Returned st'"
  shows "closed_from n0 st' \<and> take n0 st' = take n0 st"
  using s_assign_frame [OF assms(2,1), of "SStr (s_wrap_items repr otag ctag st x)" a st'] assms(3)
  by (simp add: s_wrap_at_def)

lemma get_html_map_store_frame:
  assumes "get_html_map_store fuel repr tables st = Returned (html, st')"
  shows "take (length st) st' = st"
proof -
  let ?n = "length st"
  from assms obtain work memo st0 st4 st3 st2 where
    d: "deepcopy fuel [] tables st = Returned (work, memo, st0)"
    and l4: "s_for_enum fuel 3 (s_prepend_index work) [] tables 0 st0 = Returned st4"
    and l3: "s_for_enum fuel 2 (s_wrap_at repr ''<pre>'' ''</pre>'' work) [] work 0 st4 = Returned st3"
    and l2: "s_for_enum fuel 1 (s_wrap_at repr ''<td>'' ''</td>'' work) [] work 0 st3 = Returned st2"
    and l1: "s_for_enum fuel 0 (s_wrap_at repr ''<tr>'' ''</tr>'' work) [] work 0 st2 = Returned st'"
    unfolding get_html_map_store_def by (auto split: outcome.splits)
  from deepcopy_frame(1) [of ?n st "[]" fuel tables work memo st0] d closed_from_self [of st]
  have 0: "closed_from ?n st0" "take ?n st0 = take ?n st" "fresh ?n work"
    by (simp_all add: memo_fresh_def)
  from s_for_enum_frame [OF s_prepend_index_frame [OF 0(3)] 0(1) l4]
  have 4: "closed_from ?n st4" "take ?n st4 = take ?n st0" by simp_all
  from s_for_enum_frame [OF s_wrap_at_frame [OF 0(3)] 4(1) l3]
  have 3: "closed_from ?n st3" "take ?n st3 = take ?n st4" by simp_all
  from s_for_enum_frame [OF s_wrap_at_frame [OF 0(3)] 3(1) l2]
  have 2: "closed_from ?n st2" "take ?n st2 = take ?n st3" by simp_all
  from s_for_enum_frame [OF s_wrap_at_frame [OF 0(3)] 2(1) l1]
  have 1: "take ?n st' = take ?n st2" by simp
  from 0(2) 4(2) 3(2) 2(2) 1 show ?thesis by simp
qed

lemma run_fixture:
  \<open>get_html_map_store 40 s_plain_repr (SRef 0) store_fixture =
     Returned (''<html><body><table border="1"><tr><td><pre>(0, 0, 0, 0) run1run2</pre><pre>(0, 0, 0, 1) run3</pre></td><td></td></tr></table></body></html>'',
       store_after)\<close>
  by code_simp

lemma join_fixture:
  "s_join_leaves 10 [] (SRef 0) 4 0 store_fixture =
     Returned (SRef 11, store_fixture @ [[SStr ''run1run2'', SStr ''run3''], [], [SRef 7, SRef 8], [SRef 9], [SRef 10]])"
  by code_simp

lemma read_fixture:
  "read_tree 6 store_fixture (SRef 0)
     = Some (Lst [Lst [Lst [Lst [Lst [Str ''run1'', Str ''run2''], Lst [Str ''run3'']], Lst []]]])"
  by code_simp


lemma read_fixture_text_table:
  "read_tree 6 store_fixture (SRef 0) = Some (text_table [[[[[''run1'', ''run2''], [''run3'']], []]]])"
  by (simp add: read_fixture text_table_def)

lemma value_model_on_fixture:
  \<open>get_html_map repr (text_table [[[[[''run1'', ''run2''], [''run3'']], []]]]) =
     Inr ''<html><body><table border="1"><tr><td><pre>(0, 0, 0, 0) run1run2</pre><pre>(0, 0, 0, 1) run3</pre></td><td></td></tr></table></body></html>''\<close>
  unfolding get_html_map_html_doc
  by (simp add: html_doc_def html_table_def html_row_def html_cell_def html_paragraph_def
      paragraph_text_def imap_def str_nat.simps digit_char_def)

lemma enum_fixture:
  "s_for_enum 40 3 s_pass [] (SRef 0) 0 store_fixture = Returned store_fixture"
  by code_simp

text \<open>
  Claim C5. Whatever the input, when \<open>get_html_map\<close> returns, every list that existed
  before the call is as it was, so the caller's tree reads as the same tree (all
  assignments go to the lists \<open>deepcopy\<close> allocated); \<open>join_leaves\<close> likewise only adds
  lists to the store; and a loop over \<open>enum_at_depth\<close> or \<open>iter_at_depth\<close> changes the
  store only where its body does.
\<close>

theorem inputs_not_mutated:
  "(get_html_map_store fuel repr tables st = Returned (html, st1)
      \<longrightarrow> take (length st) st1 = st
          \<and> (read_tree k st tables = Some t \<longrightarrow> read_tree k st1 tables = Some t))
   \<and> (s_join_leaves limit joint v to_depth depth st = Returned (r, st2)
      \<longrightarrow> take (length st) st2 = st
          \<and> (read_tree k st v = Some t \<longrightarrow> read_tree k st2 v = Some t))
   \<and> ((\<forall>s a x s'. body s a x = Returned s' \<longrightarrow> s' = s)
      \<longrightarrow> s_for_enum fuel d body pre v n st = Returned st3 \<longrightarrow> st3 = st)"
proof (intro conjI impI)
  assume g: "get_html_map_store fuel repr tables st = Returned (html, st1)"
  from get_html_map_store_frame [OF g] show 1: "take (length st) st1 = st" .
  assume "read_tree k st tables = Some t"
  with read_tree_prefix [OF take_prefix [OF 1]] show "read_tree k st1 tables = Some t" .
next
  assume j: "s_join_leaves limit joint v to_depth depth st = Returned (r, st2)"
  with s_join_leaves_prefix(1) [of limit joint v to_depth depth st r st2]
  have p: "prefix st st2" by simp
  then show "take (length st) st2 = st" by (auto simp: prefix_def)
  assume "read_tree k st v = Some t"
  with read_tree_prefix [OF p] show "read_tree k st2 v = Some t" .
next
  assume "\<forall>s a x s'. body s a x = Returned s' \<longrightarrow> s' = s"
    and "s_for_enum fuel d body pre v n st = Returned st3"
  then show "st3 = st"
    using s_for_enum_read_only [of body fuel d pre v n st st3] by blast
qed

theorem inputs_not_mutated_witness:
  \<open>get_html_map_store 40 s_plain_repr (SRef 0) store_fixture =
     Returned (''<html><body><table border="1"><tr><td><pre>(0, 0, 0, 0) run1run2</pre><pre>(0, 0, 0, 1) run3</pre></td><td></td></tr></table></body></html>'',
       store_after)
   \<and> take (length store_fixture) store_after = store_fixture
   \<and> read_tree 6 store_fixture (SRef 0)
       = Some (Lst [Lst [Lst [Lst [Lst [Str ''run1'', Str ''run2''], Lst [Str ''run3'']], Lst []]]])
   \<and> read_tree 6 store_after (SRef 0)
       = Some (Lst [Lst [Lst [Lst [Lst [Str ''run1'', Str ''run2''], Lst [Str ''run3'']], Lst []]]])
   \<and> s_join_leaves 10 [] (SRef 0) 4 0 store_fixture =
       Returned (SRef 11, store_fixture @ [[SStr ''run1run2'', SStr ''run3''], [], [SRef 7, SRef 8], [SRef 9], [SRef 10]])
   \<and> take (length store_fixture)
         (store_fixture @ [[SStr ''run1run2'', SStr ''run3''], [], [SRef 7, SRef 8], [SRef 9], [SRef 10]])
       = store_fixture
   \<and> s_for_enum 40 3 s_pass [] (SRef 0) 0 store_fixture = Returned store_fixture\<close>
  using inputs_not_mutated [of 40 s_plain_repr "SRef 0" store_fixture _ store_after 6 _
      10 "[]" "SRef 0" 4 0 "SRef 11"
      "store_fixture @ [[SStr ''run1run2'', SStr ''run3''], [], [SRef 7, SRef 8], [SRef 9], [SRef 10]]"
      s_pass]
    run_fixture join_fixture read_fixture enum_fixture
  by (simp add: s_pass_def)

end
